theory Spec2Isabelle
  imports Complex_Main
begin

section \<open>Data model\<close>

text \<open>
  The program is one Python file, \<^verbatim>\<open>purge_gmail.py\<close>. Its data are strings (message
  identifiers, the query, page tokens), lists of them, and the parsed command line.
  Exceptions are values: every failing remote call, \<^verbatim>\<open>sys.exit\<close>, \<^verbatim>\<open>range\<close> with step 0,
  \<^verbatim>\<open>time.sleep\<close> with a negative or too large delay or interrupted by the operator, and
  the \<^verbatim>\<open>raise\<close> of \<^verbatim>\<open>process_batch\<close> are branches of the model.
\<close>

datatype exn =
    HttpError string
  | KeyboardInterrupt
  | ValueError string
  | SystemExit int
  | OtherError string

datatype 'a result = Ok 'a | Raise exn

text \<open>
  How a call to a collaborator (the remote mail API, the token refresh, the consent flow)
  can fail: with the client library's \<^verbatim>\<open>HttpError\<close>, with the operator's interrupt while
  the call waits, or with any other exception of the library or the transport.
  \<open>raised\<close> is the exception the program then sees.
\<close>

datatype failure = HttpFailure string | Interrupted | OtherFailure string

fun raised :: "failure \<Rightarrow> exn" where
  "raised (HttpFailure d) = HttpError d"
| "raised Interrupted = KeyboardInterrupt"
| "raised (OtherFailure d) = OtherError d"

text \<open>One record of a list response: a dict of which only the key \<^verbatim>\<open>"id"\<close> is read
  (\<^verbatim>\<open>m.get("id")\<close>, so the key may be absent).\<close>

datatype message = Message (msg_id: "string option")

text \<open>A list response: \<^verbatim>\<open>resp.get("messages", [])\<close> and \<^verbatim>\<open>resp.get("nextPageToken")\<close>;
  both keys may be absent.\<close>

datatype list_response =
  ListResponse (messages: "message list option") (nextPageToken: "string option")

text \<open>Python truthiness of an optional string: \<^verbatim>\<open>None\<close> and \<^verbatim>\<open>""\<close> are falsy.\<close>

fun truthy :: "string option \<Rightarrow> bool" where
  "truthy None = False"
| "truthy (Some s) = (s \<noteq> [])"

text \<open>What the program prints, one constructor per \<^verbatim>\<open>print\<close> call of the source.\<close>

datatype printed =
    MsgProvideAllOrQuery
  | MsgBatchSizeRange
  | MsgTarget "string option"
  | MsgMode string bool
  | MsgBatch int int bool
  | MsgDryRun nat
  | MsgProcessedSoFar nat
  | MsgDone nat
  | MsgTrashNote
  | MsgMissingCredentials
  | MsgApiError string
  | MsgInterrupted

text \<open>
  The observable events of a run, in order. \<open>ListCall\<close>, \<open>BatchModify\<close> and
  \<open>BatchDelete\<close> carry the arguments of the remote request as the source builds them
  (\<^verbatim>\<open>userId\<close>, \<^verbatim>\<open>q\<close>, \<^verbatim>\<open>includeSpamTrash\<close>, \<^verbatim>\<open>pageToken\<close>, \<^verbatim>\<open>maxResults\<close>; \<^verbatim>\<open>userId\<close>,
  \<^verbatim>\<open>ids\<close>, \<^verbatim>\<open>addLabelIds\<close>, \<^verbatim>\<open>removeLabelIds\<close>). \<open>ListReply\<close> is the response of a
  successful list request, \<open>Yield\<close> one \<^verbatim>\<open>yield msg_id\<close> of the lister.
\<close>

datatype event =
    ListCall string "string option" bool "string option" nat
  | ListReply list_response
  | BatchModify string "string list" "string list" "string list"
  | BatchDelete string "string list"
  | Yield string
  | Sleep int
  | Print printed
  | AuthRefresh
  | AuthFlow
  | TokenWrite

text \<open>
  The remote mail service, over an abstract state \<open>'r\<close> of everything outside the
  program: each request returns its answer (or the exception it raises) and the next
  state, so a listing may depend on the mutations issued before it. \<open>pause\<close> is the
  platform's \<^verbatim>\<open>time.sleep\<close> for a delay in milliseconds, which the same outside world
  decides.
\<close>

text \<open>
  How \<^verbatim>\<open>time.sleep\<close> ends for a non-negative delay: it returns after the pause, it
  raises \<^verbatim>\<open>OverflowError\<close> (the delay is beyond the range of the platform's timer), or
  the operator interrupts the pause (\<^verbatim>\<open>KeyboardInterrupt\<close>).
\<close>

datatype pause_end = Slept | DelayTooLarge | PauseInterrupted

record 'r service =
  messages_list ::
    "'r \<Rightarrow> string \<Rightarrow> string option \<Rightarrow> bool \<Rightarrow> string option \<Rightarrow> nat \<Rightarrow> (failure + list_response) \<times> 'r"
  messages_batchModify ::
    "'r \<Rightarrow> string \<Rightarrow> string list \<Rightarrow> string list \<Rightarrow> string list \<Rightarrow> (failure + unit) \<times> 'r"
  messages_batchDelete ::
    "'r \<Rightarrow> string \<Rightarrow> string list \<Rightarrow> (failure + unit) \<times> 'r"
  pause :: "'r \<Rightarrow> int \<Rightarrow> pause_end \<times> 'r"

record 'r world =
  remote :: 'r
  trace :: "event list"

definition emit :: "event \<Rightarrow> 'r world \<Rightarrow> 'r world" where
  "emit e w = w\<lparr>trace := trace w @ [e]\<rparr>"

text \<open>The parsed command line (\<^verbatim>\<open>args\<close> after \<^verbatim>\<open>parse_args\<close>).\<close>

record args =
  mode :: string
  query :: "string option"
  all_flag :: bool
  dry_run :: bool
  batch_size :: int
  max_count :: int
  include_spam_trash :: bool
  sleep_ms :: int

text \<open>
  The local files and the authentication collaborator that \<^verbatim>\<open>get_service\<close> reads:
  the credentials stored in \<^verbatim>\<open>token.json\<close> when that file exists, whether
  \<^verbatim>\<open>credentials.json\<close> exists, and what the token refresh and the interactive consent
  flow do when they are run (\<open>None\<close>: they succeed).
\<close>

record credentials =
  valid :: bool
  expired :: bool
  refresh_token :: "string option"

record env =
  token_json :: "credentials option"
  credentials_json_exists :: bool
  refresh_failure :: "failure option"
  flow_failure :: "failure option"

section \<open>The Batcher: \<^verbatim>\<open>chunks\<close>\<close>

text \<open>
  \<^verbatim>\<open>for i in range(0, len(seq), size): yield seq[i:i + size]\<close>.
  \<open>slices seq sz i\<close> is the loop from index \<open>i\<close> on, for a positive step
  \<open>sz\<close> (the source's \<^verbatim>\<open>size\<close>); \<open>chunks\<close>
  adds what \<^verbatim>\<open>range\<close> does for the other steps: step 0 raises \<^verbatim>\<open>ValueError\<close>, a negative
  step gives the empty range.
\<close>

function slices :: "'a list \<Rightarrow> nat \<Rightarrow> nat \<Rightarrow> 'a list list" where
  "slices seq sz i =
     (if 0 < sz \<and> i < length seq
      then take sz (drop i seq) # slices seq sz (i + sz)
      else [])"
  by pat_completeness auto
termination
  by (relation "measure (\<lambda>(seq, sz, i). length seq - i)") auto

declare slices.simps [simp del]

definition chunks :: "'a list \<Rightarrow> int \<Rightarrow> exn + 'a list list" where
  "chunks seq sz =
     (if sz = 0 then Inl (ValueError ''range() arg 3 must not be zero'')
      else if sz < 0 then Inr []
      else Inr (slices seq (nat sz) 0))"

section \<open>The Mutator: \<^verbatim>\<open>process_batch\<close>\<close>

definition call_batchModify ::
  "'r service \<Rightarrow> string list \<Rightarrow> string list \<Rightarrow> string list \<Rightarrow> 'r world \<Rightarrow> unit result \<times> 'r world" where
  "call_batchModify svc ids add rem w =
     (case messages_batchModify svc (remote w) ''me'' ids add rem of
        (Inl e, r') \<Rightarrow> (Raise (raised e), emit (BatchModify ''me'' ids add rem) (w\<lparr>remote := r'\<rparr>))
      | (Inr u, r') \<Rightarrow> (Ok (), emit (BatchModify ''me'' ids add rem) (w\<lparr>remote := r'\<rparr>)))"

definition call_batchDelete ::
  "'r service \<Rightarrow> string list \<Rightarrow> 'r world \<Rightarrow> unit result \<times> 'r world" where
  "call_batchDelete svc ids w =
     (case messages_batchDelete svc (remote w) ''me'' ids of
        (Inl e, r') \<Rightarrow> (Raise (raised e), emit (BatchDelete ''me'' ids) (w\<lparr>remote := r'\<rparr>))
      | (Inr u, r') \<Rightarrow> (Ok (), emit (BatchDelete ''me'' ids) (w\<lparr>remote := r'\<rparr>)))"

definition process_batch ::
  "'r service \<Rightarrow> string list \<Rightarrow> string \<Rightarrow> 'r world \<Rightarrow> unit result \<times> 'r world" where
  "process_batch svc ids md w =
     (if md = ''trash'' then call_batchModify svc ids [''TRASH''] [] w
      else if md = ''delete'' then call_batchDelete svc ids w
      else (Raise (ValueError ''mode must be 'trash' or 'delete' ''), w))"

section \<open>The Lister: \<^verbatim>\<open>list_message_ids\<close>\<close>

text \<open>
  The lister is a generator and \<^verbatim>\<open>main\<close> consumes it with a \<^verbatim>\<open>for\<close> loop that never
  breaks, so the generator's body and the loop's body alternate: each \<^verbatim>\<open>yield msg_id\<close>
  runs the loop body once on \<open>msg_id\<close>. The model passes the loop body as \<open>body\<close>,
  with the consumer's local state \<open>c\<close>; an exception of either side leaves both.
\<close>

definition call_list ::
  "'r service \<Rightarrow> string option \<Rightarrow> bool \<Rightarrow> string option \<Rightarrow> 'r world \<Rightarrow> list_response result \<times> 'r world" where
  "call_list svc q ist tok w =
     (case messages_list svc (remote w) ''me'' q ist tok 500 of
        (Inl e, r') \<Rightarrow> (Raise (raised e), emit (ListCall ''me'' q ist tok 500) (w\<lparr>remote := r'\<rparr>))
      | (Inr resp, r') \<Rightarrow>
          (Ok resp, emit (ListReply resp) (emit (ListCall ''me'' q ist tok 500) (w\<lparr>remote := r'\<rparr>))))"

text \<open>How the inner \<^verbatim>\<open>for m in resp.get("messages", [])\<close> ends: the page is exhausted
  (with the lister's running \<^verbatim>\<open>total\<close>), or the generator returned at the cap.\<close>

datatype 'c page_end = Exhausted nat 'c | Returned 'c

fun scan_page ::
  "int \<Rightarrow> (string \<Rightarrow> 'c \<Rightarrow> 'r world \<Rightarrow> 'c result \<times> 'r world) \<Rightarrow> message list \<Rightarrow> nat \<Rightarrow> 'c \<Rightarrow> 'r world
     \<Rightarrow> 'c page_end result \<times> 'r world" where
  "scan_page mx body [] tot c w = (Ok (Exhausted tot c), w)"
| "scan_page mx body (m # ms) tot c w =
     (if mx \<noteq> 0 \<and> mx \<le> int tot then (Ok (Returned c), w)
      else if truthy (msg_id m) then
        (case body (the (msg_id m)) c (emit (Yield (the (msg_id m))) w) of
           (Raise e, w') \<Rightarrow> (Raise e, w')
         | (Ok c', w') \<Rightarrow> scan_page mx body ms (Suc tot) c' w')
      else scan_page mx body ms tot c w)"

text \<open>The \<^verbatim>\<open>while True\<close> loop. It has no bound of its own, so the model takes fuel: the
  number of list requests it may still make; \<open>None\<close> is a loop still running when the
  fuel is spent.\<close>

fun page_loop ::
  "nat \<Rightarrow> 'r service \<Rightarrow> string option \<Rightarrow> bool \<Rightarrow> int
     \<Rightarrow> (string \<Rightarrow> 'c \<Rightarrow> 'r world \<Rightarrow> 'c result \<times> 'r world)
     \<Rightarrow> string option \<Rightarrow> nat \<Rightarrow> 'c \<Rightarrow> 'r world \<Rightarrow> 'c result option \<times> 'r world" where
  "page_loop 0 svc q ist mx body page_token tot c w = (None, w)"
| "page_loop (Suc fuel) svc q ist mx body page_token tot c w =
     (case call_list svc q ist page_token w of
        (Raise e, w1) \<Rightarrow> (Some (Raise e), w1)
      | (Ok resp, w1) \<Rightarrow>
          (case scan_page mx body (case messages resp of None \<Rightarrow> [] | Some ms \<Rightarrow> ms) tot c w1 of
             (Raise e, w2) \<Rightarrow> (Some (Raise e), w2)
           | (Ok (Returned c'), w2) \<Rightarrow> (Some (Ok c'), w2)
           | (Ok (Exhausted tot' c'), w2) \<Rightarrow>
               (if \<not> truthy (nextPageToken resp) then (Some (Ok c'), w2)
                else page_loop fuel svc q ist mx body (nextPageToken resp) tot' c' w2)))"

definition list_message_ids ::
  "nat \<Rightarrow> 'r service \<Rightarrow> string option \<Rightarrow> bool \<Rightarrow> int
     \<Rightarrow> (string \<Rightarrow> 'c \<Rightarrow> 'r world \<Rightarrow> 'c result \<times> 'r world)
     \<Rightarrow> 'c \<Rightarrow> 'r world \<Rightarrow> 'c result option \<times> 'r world" where
  "list_message_ids fuel svc q ist mx body c w = page_loop fuel svc q ist mx body None 0 c w"

text \<open>\<^verbatim>\<open>list(list_message_ids(...))\<close>: the lister run on its own, its identifiers collected.\<close>

definition collect :: "string \<Rightarrow> string list \<Rightarrow> 'r world \<Rightarrow> string list result \<times> 'r world" where
  "collect i acc w = (Ok (acc @ [i]), w)"

section \<open>The Driver: \<^verbatim>\<open>get_service\<close> and \<^verbatim>\<open>main\<close>\<close>

definition get_service :: "env \<Rightarrow> 'r world \<Rightarrow> unit result \<times> 'r world" where
  "get_service ev w =
     (if token_json ev = None \<or> \<not> valid (the (token_json ev)) then
        (if token_json ev \<noteq> None \<and> expired (the (token_json ev))
              \<and> truthy (refresh_token (the (token_json ev))) then
           (case refresh_failure ev of
              Some e \<Rightarrow> (Raise (raised e), emit AuthRefresh w)
            | None \<Rightarrow> (Ok (), emit TokenWrite (emit AuthRefresh w)))
         else if \<not> credentials_json_exists ev then
           (Raise (SystemExit 1), emit (Print MsgMissingCredentials) w)
         else
           (case flow_failure ev of
              Some e \<Rightarrow> (Raise (raised e), emit AuthFlow w)
            | None \<Rightarrow> (Ok (), emit TokenWrite (emit AuthFlow w))))
      else (Ok (), w))"

text \<open>\<^verbatim>\<open>time.sleep(args.sleep_ms / 1000.0)\<close>: a negative delay raises \<^verbatim>\<open>ValueError\<close>; any
  other delay is handed to the platform, where it can overflow the timer or be
  interrupted by the operator. Neither exception is an \<^verbatim>\<open>HttpError\<close>.\<close>

definition sleep :: "'r service \<Rightarrow> int \<Rightarrow> 'r world \<Rightarrow> unit result \<times> 'r world" where
  "sleep svc ms w =
     (if ms < 0 then (Raise (ValueError ''sleep length must be non-negative''), w)
      else
        (case pause svc (remote w) ms of
           (Slept, r') \<Rightarrow> (Ok (), emit (Sleep ms) (w\<lparr>remote := r'\<rparr>))
         | (DelayTooLarge, r') \<Rightarrow> (Raise (OtherError ''OverflowError''), w\<lparr>remote := r'\<rparr>)
         | (PauseInterrupted, r') \<Rightarrow> (Raise KeyboardInterrupt, w\<lparr>remote := r'\<rparr>)))"

text \<open>The body of \<^verbatim>\<open>for group in chunks(buffered, args.batch_size)\<close>, over the groups.\<close>

fun process_groups ::
  "'r service \<Rightarrow> string \<Rightarrow> int \<Rightarrow> string list list \<Rightarrow> 'r world \<Rightarrow> unit result \<times> 'r world" where
  "process_groups svc md ms [] w = (Ok (), w)"
| "process_groups svc md ms (g # gs) w =
     (case process_batch svc g md w of
        (Raise e, w1) \<Rightarrow> (Raise e, w1)
      | (Ok u, w1) \<Rightarrow>
          (case sleep svc ms w1 of
             (Raise e, w2) \<Rightarrow> (Raise e, w2)
           | (Ok u', w2) \<Rightarrow> process_groups svc md ms gs w2))"

text \<open>One flush of the buffer: the count line in a dry run, the batches otherwise.\<close>

definition flush :: "'r service \<Rightarrow> args \<Rightarrow> string list \<Rightarrow> 'r world \<Rightarrow> unit result \<times> 'r world" where
  "flush svc a buffered w =
     (if dry_run a then (Ok (), emit (Print (MsgDryRun (length buffered))) w)
      else
        (case chunks buffered (batch_size a) of
           Inl e \<Rightarrow> (Raise e, w)
         | Inr gs \<Rightarrow> process_groups svc (mode a) (sleep_ms a) gs w))"

text \<open>The body of \<^verbatim>\<open>for msg_id in list_message_ids(...)\<close>; the consumer's state is
  \<open>(buffered, tot)\<close> (the source's \<^verbatim>\<open>buffered\<close> and \<^verbatim>\<open>total\<close>).\<close>

definition loop_body ::
  "'r service \<Rightarrow> args \<Rightarrow> string \<Rightarrow> string list \<times> nat \<Rightarrow> 'r world
     \<Rightarrow> (string list \<times> nat) result \<times> 'r world" where
  "loop_body svc a i c w =
     (let buffered = fst c @ [i]; tot = snd c + 1 in
      if 5000 \<le> length buffered then
        (case flush svc a buffered w of
           (Raise e, w1) \<Rightarrow> (Raise e, w1)
         | (Ok u, w1) \<Rightarrow> (Ok ([], tot), emit (Print (MsgProcessedSoFar tot)) w1))
      else (Ok (buffered, tot), w))"

text \<open>The \<^verbatim>\<open>try\<close> block of \<^verbatim>\<open>main\<close>.\<close>

definition try_block ::
  "nat \<Rightarrow> env \<Rightarrow> 'r service \<Rightarrow> args \<Rightarrow> 'r world \<Rightarrow> unit result option \<times> 'r world" where
  "try_block fuel ev svc a w =
     (case get_service ev w of
        (Raise e, w1) \<Rightarrow> (Some (Raise e), w1)
      | (Ok u, w1) \<Rightarrow>
          (case list_message_ids fuel svc (if all_flag a then None else query a)
                  (include_spam_trash a) (max_count a) (loop_body svc a) ([], 0) w1 of
             (None, w2) \<Rightarrow> (None, w2)
           | (Some (Raise e), w2) \<Rightarrow> (Some (Raise e), w2)
           | (Some (Ok (buffered, tot)), w2) \<Rightarrow>
               (case (if buffered \<noteq> [] then flush svc a buffered w2 else (Ok (), w2)) of
                  (Raise e, w3) \<Rightarrow> (Some (Raise e), w3)
                | (Ok u', w3) \<Rightarrow>
                    (Some (Ok ()),
                     (if mode a = ''trash'' then emit (Print MsgTrashNote) else (\<lambda>w. w))
                       (emit (Print (MsgDone tot)) w3)))))"

text \<open>How the process ends: \<^verbatim>\<open>main\<close> returns (exit code 0), \<^verbatim>\<open>sys.exit\<close> with a code, or
  an exception that nothing catches.\<close>

datatype exit_status = Completed | Exit int | Uncaught exn

text \<open>
  \<^verbatim>\<open>main\<close>, from the parsed arguments on. \<^verbatim>\<open>parse_args\<close> itself rejects a \<^verbatim>\<open>--mode\<close>
  outside its \<^verbatim>\<open>choices\<close> with exit code 2; the two explicit checks follow, then the
  banner, then the \<^verbatim>\<open>try\<close> block with its two handlers. \<^verbatim>\<open>sys.exit\<close> raises
  \<^verbatim>\<open>SystemExit\<close>, which neither handler catches.
\<close>

definition main ::
  "nat \<Rightarrow> env \<Rightarrow> 'r service \<Rightarrow> args \<Rightarrow> 'r world \<Rightarrow> exit_status option \<times> 'r world" where
  "main fuel ev svc a w =
     (if mode a \<noteq> ''trash'' \<and> mode a \<noteq> ''delete'' then (Some (Exit 2), w)
      else if \<not> all_flag a \<and> \<not> truthy (query a) then
        (Some (Exit 2), emit (Print MsgProvideAllOrQuery) w)
      else if \<not> (1 \<le> batch_size a \<and> batch_size a \<le> 1000) then
        (Some (Exit 2), emit (Print MsgBatchSizeRange) w)
      else
        (case try_block fuel ev svc a
                (emit (Print (MsgBatch (batch_size a) (max_count a) (include_spam_trash a)))
                  (emit (Print (MsgMode (mode a) (dry_run a)))
                    (emit (Print (MsgTarget (if all_flag a then None else query a))) w))) of
           (None, w') \<Rightarrow> (None, w')
         | (Some (Ok u), w') \<Rightarrow> (Some Completed, w')
         | (Some (Raise (HttpError d)), w') \<Rightarrow> (Some (Exit 1), emit (Print (MsgApiError d)) w')
         | (Some (Raise KeyboardInterrupt), w') \<Rightarrow> (Some (Exit 130), emit (Print MsgInterrupted) w')
         | (Some (Raise (SystemExit n)), w') \<Rightarrow> (Some (Exit n), w')
         | (Some (Raise e), w') \<Rightarrow> (Some (Uncaught e), w')))"

text \<open>A run of the program starts with an empty trace.\<close>

definition run :: "nat \<Rightarrow> env \<Rightarrow> 'r service \<Rightarrow> args \<Rightarrow> 'r \<Rightarrow> exit_status option \<times> 'r world" where
  "run fuel ev svc a r = main fuel ev svc a \<lparr>remote = r, trace = []\<rparr>"

section \<open>Reading a trace\<close>

fun is_mutation :: "event \<Rightarrow> bool" where
  "is_mutation (BatchModify u ids add rem) = True"
| "is_mutation (BatchDelete u ids) = True"
| "is_mutation e = False"

fun is_remote :: "event \<Rightarrow> bool" where
  "is_remote (ListCall u q ist tok n) = True"
| "is_remote (BatchModify u ids add rem) = True"
| "is_remote (BatchDelete u ids) = True"
| "is_remote AuthRefresh = True"
| "is_remote AuthFlow = True"
| "is_remote e = False"

text \<open>The identifiers yielded, and the batches handed to a mutating request, in order.\<close>

fun yields :: "event list \<Rightarrow> string list" where
  "yields [] = []"
| "yields (Yield i # es) = i # yields es"
| "yields (e # es) = yields es"

fun batches :: "event list \<Rightarrow> string list list" where
  "batches [] = []"
| "batches (BatchModify u ids add rem # es) = ids # batches es"
| "batches (BatchDelete u ids # es) = ids # batches es"
| "batches (e # es) = batches es"

fun replies :: "event list \<Rightarrow> list_response list" where
  "replies [] = []"
| "replies (ListReply resp # es) = resp # replies es"
| "replies (e # es) = replies es"

text \<open>The totals reported by the final \<^verbatim>\<open>Done. Matched messages\<close> line.\<close>

fun reported :: "event list \<Rightarrow> nat list" where
  "reported [] = []"
| "reported (Print (MsgDone n) # es) = n # reported es"
| "reported (e # es) = reported es"

text \<open>The mutating requests of a trace, and its list requests.\<close>

definition mutations :: "event list \<Rightarrow> event list" where
  "mutations tr = filter is_mutation tr"


fun requests :: "event list \<Rightarrow> event list" where
  "requests [] = []"
| "requests (ListCall u q ist tok n # es) = ListCall u q ist tok n # requests es"
| "requests (e # es) = requests es"

text \<open>The mutating request that \<open>process_batch\<close> sends for a valid mode.\<close>

definition mutation_call :: "string \<Rightarrow> string list \<Rightarrow> event" where
  "mutation_call md ids =
     (if md = ''trash'' then BatchModify ''me'' ids [''TRASH''] [] else BatchDelete ''me'' ids)"

text \<open>The arguments that pass the checks at the head of \<open>main\<close>.\<close>

definition accepted :: "args \<Rightarrow> bool" where
  "accepted a =
     ((mode a = ''trash'' \<or> mode a = ''delete'') \<and> (all_flag a \<or> truthy (query a))
      \<and> 1 \<le> batch_size a \<and> batch_size a \<le> 1000)"

text \<open>
  The batches of a run that has yielded \<open>ys\<close>: the driver cuts \<open>ys\<close> into buffers at
  every 5000 identifiers (the flush threshold of \<open>loop_body\<close>, the rest being the final
  flush), and the Batcher cuts each buffer into groups of \<open>B\<close>. \<open>planned\<close> is the list of
  mutating requests for them: none in a dry run.
\<close>

definition plan :: "nat \<Rightarrow> string list \<Rightarrow> string list list" where
  "plan B ys = concat (map (\<lambda>buffered. slices buffered B 0) (slices ys 5000 0))"

definition planned :: "args \<Rightarrow> string list \<Rightarrow> event list" where
  "planned a ys =
     (if dry_run a then [] else map (mutation_call (mode a)) (plan (nat (batch_size a)) ys))"

text \<open>
  The driver's loop invariant between two iterations, for the consumer state
  \<open>c = (buffered, tot)\<close>: the identifiers yielded so far are those already flushed, a
  multiple of 5000 of them, followed by the buffer, which is shorter than 5000; the
  mutating requests so far are the planned ones for the flushed part; \<open>tot\<close> counts the
  identifiers yielded. \<open>in_progress\<close> is what remains true when a run stops anywhere:
  the mutating requests so far are an initial part of the planned ones.
\<close>

definition between_flushes :: "args \<Rightarrow> string list \<times> nat \<Rightarrow> 'r world \<Rightarrow> bool" where
  "between_flushes a c w =
     (\<exists>flushed. yields (trace w) = flushed @ fst c \<and> 5000 dvd length flushed
        \<and> length (fst c) < 5000
        \<and> mutations (trace w) = planned a flushed
        \<and> snd c = length (yields (trace w))
        \<and> reported (trace w) = [])"

definition in_progress :: "args \<Rightarrow> 'r world \<Rightarrow> bool" where
  "in_progress a w =
     (\<exists>n. mutations (trace w) = take n (planned a (yields (trace w))))"

text \<open>The identifiers of one page that the lister's inner loop yields when no cap stops it:
  those of the records whose \<^verbatim>\<open>"id"\<close> is present and non-empty.\<close>

definition page_ids :: "list_response \<Rightarrow> string list" where
  "page_ids resp =
     map (\<lambda>m. the (msg_id m))
       (filter (\<lambda>m. truthy (msg_id m)) (case messages resp of None \<Rightarrow> [] | Some ms \<Rightarrow> ms))"

text \<open>
  Whether the lister's inner loop, entered with the running total \<open>tot\<close> on the records
  \<open>ms\<close>, returns at the cap before the page is exhausted: the tests of \<open>scan_page\<close>
  without its effects.
\<close>

fun cap_hit :: "int \<Rightarrow> nat \<Rightarrow> message list \<Rightarrow> bool" where
  "cap_hit mx tot [] = False"
| "cap_hit mx tot (m # ms) =
     (if mx \<noteq> 0 \<and> mx \<le> int tot then True
      else cap_hit mx (if truthy (msg_id m) then Suc tot else tot) ms)"

text \<open>A loop body is quiet when it leaves the lister's own events alone: it adds no
  \<open>Yield\<close>, \<open>ListCall\<close> or \<open>ListReply\<close> to the trace.\<close>

definition quiet :: "(string \<Rightarrow> 'c \<Rightarrow> 'r world \<Rightarrow> 'c result \<times> 'r world) \<Rightarrow> bool" where
  "quiet body =
     (\<forall>i c w. yields (trace (snd (body i c w))) = yields (trace w)
        \<and> replies (trace (snd (body i c w))) = replies (trace w)
        \<and> requests (trace (snd (body i c w))) = requests (trace w))"

text \<open>The world at the start of a run: a remote state and no event yet.\<close>

definition fresh :: "'r \<Rightarrow> 'r world" where
  "fresh r = \<lparr>remote = r, trace = []\<rparr>"

section \<open>Example remotes\<close>

text \<open>A remote without state of its own: the page (or the failure) it answers with depends
  on the page token only, every mutating request succeeds and every pause runs to its
  end.\<close>

definition paged_service :: "(string option \<Rightarrow> failure + list_response) \<Rightarrow> unit service" where
  "paged_service pages =
     \<lparr>messages_list = (\<lambda>r u q ist tok n. (pages tok, r)),
      messages_batchModify = (\<lambda>r u ids add rem. (Inr (), r)),
      messages_batchDelete = (\<lambda>r u ids. (Inr (), r)),
      pause = (\<lambda>r ms. (Slept, r))\<rparr>"

text \<open>A mailbox of two pages: the first holds \<open>a\<close> and \<open>b\<close> and continues with token
  \<open>t\<close>, the second holds \<open>c\<close> and ends the listing.\<close>

definition two_pages :: "string option \<Rightarrow> failure + list_response" where
  "two_pages tok =
     (if tok = None
      then Inr (ListResponse (Some [Message (Some ''a''), Message (Some ''b'')]) (Some ''t''))
      else Inr (ListResponse (Some [Message (Some ''c'')]) None))"

text \<open>The same first page, and a second list request that fails.\<close>

definition second_page_fails :: "string option \<Rightarrow> failure + list_response" where
  "second_page_fails tok =
     (if tok = None
      then Inr (ListResponse (Some [Message (Some ''a''), Message (Some ''b'')]) (Some ''t''))
      else Inl (HttpFailure ''backend error''))"

definition example_args :: args where
  "example_args =
     \<lparr>mode = ''trash'', query = Some ''older_than:1y'', all_flag = False, dry_run = False,
      batch_size = 2, max_count = 0, include_spam_trash = False, sleep_ms = 250\<rparr>"

text \<open>A stored token that is still valid, and no \<^verbatim>\<open>credentials.json\<close>.\<close>

definition token_only :: env where
  "token_only =
     \<lparr>token_json = Some \<lparr>valid = True, expired = False, refresh_token = None\<rparr>,
      credentials_json_exists = False, refresh_failure = None, flow_failure = None\<rparr>"

text \<open>Neither a stored token nor \<^verbatim>\<open>credentials.json\<close>.\<close>

definition no_files :: env where
  "no_files =
     \<lparr>token_json = None, credentials_json_exists = False,
      refresh_failure = None, flow_failure = None\<rparr>"

text \<open>A stored token that has expired and can be refreshed, and no \<^verbatim>\<open>credentials.json\<close>.\<close>

definition refreshable_token :: env where
  "refreshable_token =
     \<lparr>token_json = Some \<lparr>valid = False, expired = True, refresh_token = Some ''r''\<rparr>,
      credentials_json_exists = False, refresh_failure = None, flow_failure = None\<rparr>"

section \<open>The Batcher splits a list into consecutive groups\<close>

lemma slices_concat: "0 < sz \<Longrightarrow> concat (slices seq sz i) = drop i seq"
proof (induction seq sz i rule: slices.induct)
  case (1 seq sz i)
  show ?case
  proof (cases "i < length seq")
    case True
    with 1 have "concat (slices seq sz (i + sz)) = drop (i + sz) seq" by simp
    moreover have "slices seq sz i = take sz (drop i seq) # slices seq sz (i + sz)"
      using True 1(2) by (subst slices.simps) simp
    moreover have "take sz (drop i seq) @ drop (i + sz) seq = drop i seq"
      by (metis append_take_drop_id drop_drop add.commute)
    ultimately show ?thesis by simp
  next
    case False
    then show ?thesis by (subst slices.simps) simp
  qed
qed

lemma slices_member: "b \<in> set (slices seq sz i) \<Longrightarrow> b \<noteq> [] \<and> length b \<le> sz"
proof (induction seq sz i rule: slices.induct)
  case (1 seq sz i)
  show ?case
  proof (cases "0 < sz \<and> i < length seq")
    case True
    from 1(2) have "b \<in> set (take sz (drop i seq) # slices seq sz (i + sz))"
      using True by (subst (asm) slices.simps) simp
    then consider "b = take sz (drop i seq)" | "b \<in> set (slices seq sz (i + sz))" by auto
    then show ?thesis
    proof cases
      case 1
      then show ?thesis using True by auto
    next
      case 2
      then show ?thesis using 1(1) True by blast
    qed
  next
    case False
    with 1(2) show ?thesis by (subst (asm) slices.simps) simp
  qed
qed

lemma slices_length: "0 < sz \<Longrightarrow> length (slices seq sz i) = (length seq - i + sz - 1) div sz"
proof (induction seq sz i rule: slices.induct)
  case (1 seq sz i)
  show ?case
  proof (cases "i < length seq")
    case True
    with 1 have IH: "length (slices seq sz (i + sz)) = (length seq - (i + sz) + sz - 1) div sz" by simp
    have "length (slices seq sz i) = Suc ((length seq - (i + sz) + sz - 1) div sz)"
      using True 1(2) IH by (subst slices.simps) simp
    also have "\<dots> = (length seq - i + sz - 1) div sz"
    proof (cases "i + sz \<le> length seq")
      case True
      define x where "x = length seq - i - 1"
      have h: "length seq - (i + sz) + sz - 1 = x" "length seq - i + sz - 1 = x + sz"
        using True 1(2) by (auto simp: x_def)
      have "Suc (x div sz) = (x + sz) div sz" using 1(2) by simp
      then show ?thesis by (simp only: h)
    next
      case False
      then have a: "length seq - (i + sz) + sz - 1 = sz - 1" by simp
      have b: "sz \<le> length seq - i + sz - 1" "length seq - i + sz - 1 < 2 * sz"
        using False True by auto
      have "(length seq - i + sz - 1) div sz = 1"
        using b 1(2) by (metis Suc_1 add_diff_cancel_right' div_nat_eqI mult.commute mult_2 nat_mult_1_right plus_1_eq_Suc)
      moreover have "(sz - 1) div sz = 0" using 1(2) by simp
      ultimately show ?thesis by (simp only: a)
    qed
    finally show ?thesis .
  next
    case False
    then show ?thesis using 1(2) by (subst slices.simps) simp
  qed
qed

lemma slices_full: "Suc k < length (slices seq sz i) \<Longrightarrow> length (slices seq sz i ! k) = sz"
proof (induction seq sz i arbitrary: k rule: slices.induct)
  case (1 seq sz i)
  show ?case
  proof (cases "0 < sz \<and> i < length seq")
    case True
    then have eq: "slices seq sz i = take sz (drop i seq) # slices seq sz (i + sz)"
      by (subst slices.simps) simp
    show ?thesis
    proof (cases k)
      case 0
      with 1(2) eq have "slices seq sz (i + sz) \<noteq> []" by auto
      then have "i + sz < length seq" by (subst (asm) slices.simps) (simp split: if_splits)
      then show ?thesis using eq 0 by simp
    next
      case (Suc j)
      with 1(2) eq have "Suc j < length (slices seq sz (i + sz))" by simp
      then have "length (slices seq sz (i + sz) ! j) = sz" using 1(1) True by blast
      then show ?thesis using eq Suc by simp
    qed
  next
    case False
    then have "slices seq sz i = []" by (subst slices.simps) simp
    with 1(2) show ?thesis by simp
  qed
qed

lemma ceil_div_nat_aux:
  assumes "0 < sz"
  shows "(n + sz - 1) div sz = (if n mod sz = 0 then n div sz else Suc (n div sz))"
proof -
  define q r where "q = n div sz" and "r = n mod sz"
  have n: "n = r + q * sz" and r: "r < sz" using assms by (auto simp: q_def r_def)
  have sz0: "sz \<noteq> 0" using assms by simp
  show ?thesis
  proof (cases "r = 0")
    case True
    have "(sz - 1 + q * sz) div sz = q + (sz - 1) div sz" by (rule div_mult_self1 [OF sz0])
    moreover have "(sz - 1) div sz = 0" using assms by simp
    moreover have "n + sz - 1 = sz - 1 + q * sz" using n True assms by simp
    ultimately have "(n + sz - 1) div sz = q" by (simp only: add_0_right)
    then show ?thesis using True by (simp add: q_def r_def)
  next
    case False
    have "(r - 1 + (q + 1) * sz) div sz = (q + 1) + (r - 1) div sz" by (rule div_mult_self1 [OF sz0])
    moreover have "(r - 1) div sz = 0" using r by simp
    moreover have "n + sz - 1 = r - 1 + (q + 1) * sz" using n False by simp
    ultimately have "(n + sz - 1) div sz = q + 1" by (simp only: add_0_right)
    then show ?thesis using False by (simp add: q_def r_def)
  qed
qed

lemma ceil_div_nat: 
  assumes sz: "0 < sz"
  shows "int ((n + sz - 1) div sz) = \<lceil>real n / real sz\<rceil>"
proof -
  have "\<lceil>real n / real sz\<rceil> = \<lceil>of_int (int n) / (of_int (int sz) :: real)\<rceil>" by simp
  also have "\<dots> = - (- int n div int sz)" by (rule ceiling_divide_eq_div)
  also have "\<dots> = (if int n mod int sz = 0 then int n div int sz else int n div int sz + 1)"
    using sz by (simp add: zdiv_zminus1_eq_if)
  also have "\<dots> = int (if n mod sz = 0 then n div sz else Suc (n div sz))"
    by (simp add: zdiv_int flip: of_nat_mod)
  also have "\<dots> = int ((n + sz - 1) div sz)"
    using sz by (simp only: ceil_div_nat_aux)
  finally show ?thesis by simp
qed

lemma slices_Nil: "slices [] sz i = []"
  by (subst slices.simps) simp

lemma slices_shift: "slices (pre @ xs) sz (length pre + i) = slices xs sz i"
proof (induction xs sz i rule: slices.induct)
  case (1 xs sz i)
  show ?case
  proof (cases "0 < sz \<and> i < length xs")
    case True
    then have "slices (pre @ xs) sz (length pre + (i + sz)) = slices xs sz (i + sz)"
      using 1 by blast
    moreover have "slices (pre @ xs) sz (length pre + i)
        = take sz (drop (length pre + i) (pre @ xs)) # slices (pre @ xs) sz (length pre + i + sz)"
      using True by (subst slices.simps) simp
    moreover have "slices xs sz i = take sz (drop i xs) # slices xs sz (i + sz)"
      using True by (subst slices.simps) simp
    ultimately show ?thesis by (simp add: add.assoc)
  next
    case False
    then have "slices (pre @ xs) sz (length pre + i) = []" by (subst slices.simps) auto
    moreover have "slices xs sz i = []" using False by (subst slices.simps) auto
    ultimately show ?thesis by simp
  qed
qed

lemma slices_append_aligned:
  "i \<le> length xs \<Longrightarrow> sz dvd (length xs - i) \<Longrightarrow> 0 < sz \<Longrightarrow>
   slices (xs @ ys) sz i = slices xs sz i @ slices ys sz 0"
proof (induction xs sz i rule: slices.induct)
  case (1 xs sz i)
  show ?case
  proof (cases "i < length xs")
    case True
    have "sz \<le> length xs - i"
      using 1(3) True by (intro dvd_imp_le) auto
    then have le: "i + sz \<le> length xs" using True by linarith
    have "sz dvd (length xs - i - sz)"
      using 1(3) dvd_refl [of sz] by (rule dvd_diff_nat)
    then have dv: "sz dvd (length xs - (i + sz))" by (simp add: diff_diff_left)
    have IH: "slices (xs @ ys) sz (i + sz) = slices xs sz (i + sz) @ slices ys sz 0"
      using 1(1) True 1(4) le dv by blast
    have t: "take sz (drop i (xs @ ys)) = take sz (drop i xs)"
      using le by simp
    have a: "slices (xs @ ys) sz i = take sz (drop i (xs @ ys)) # slices (xs @ ys) sz (i + sz)"
      using True 1(4) by (subst slices.simps) simp
    have b: "slices xs sz i = take sz (drop i xs) # slices xs sz (i + sz)"
      using True 1(4) by (subst slices.simps) simp
    show ?thesis by (simp only: a b IH t append_Cons)
  next
    case False
    with 1(2) have i: "i = length xs" by simp
    have "slices xs sz i = []" using i by (subst slices.simps) simp
    moreover have "slices (xs @ ys) sz (length xs + 0) = slices ys sz 0" by (rule slices_shift)
    ultimately show ?thesis using i by simp
  qed
qed

lemma slices_single: "0 < length b \<Longrightarrow> length b \<le> sz \<Longrightarrow> slices b sz 0 = [b]"
proof -
  assume a: "0 < length b" "length b \<le> sz"
  then have "0 < sz" by linarith
  have "slices b sz (0 + sz) = []" using a by (subst slices.simps) simp
  then show ?thesis using a \<open>0 < sz\<close> by (subst slices.simps) simp
qed

text \<open>
  Claim C2. For every list of \<open>N\<close> identifiers and every batch size \<open>B\<close> from 1 on (so
  for each \<open>B\<close> between 1 and 1000), \<open>chunks\<close> returns \<open>\<lceil>N / B\<rceil>\<close> batches, each of
  length at most \<open>B\<close>, every batch but the last of length exactly \<open>B\<close>, and the batches
  concatenated in order are the original list.
\<close>

theorem chunks_partition:
  assumes "1 \<le> B"
  shows "\<exists>bs. chunks seq B = Inr bs
           \<and> int (length bs) = \<lceil>real (length seq) / real_of_int B\<rceil>
           \<and> (\<forall>b \<in> set bs. length b \<le> nat B)
           \<and> (\<forall>k. Suc k < length bs \<longrightarrow> length (bs ! k) = nat B)
           \<and> concat bs = seq"
proof -
  define sz where "sz = nat B"
  have sz: "0 < sz" and B: "B = int sz" using assms by (auto simp: sz_def)
  have c: "chunks seq B = Inr (slices seq sz 0)"
    using assms by (simp add: chunks_def sz_def)
  have "int (length (slices seq sz 0)) = \<lceil>real (length seq) / real sz\<rceil>"
    using slices_length [OF sz, of seq 0] ceil_div_nat [OF sz, of "length seq"] by simp
  then have l: "int (length (slices seq sz 0)) = \<lceil>real (length seq) / real_of_int B\<rceil>"
    by (simp add: B)
  have m: "\<forall>b \<in> set (slices seq sz 0). length b \<le> sz"
    using slices_member by blast
  have f: "\<forall>k. Suc k < length (slices seq sz 0) \<longrightarrow> length (slices seq sz 0 ! k) = sz"
    using slices_full by blast
  have "concat (slices seq sz 0) = seq"
    using slices_concat [OF sz, of seq 0] by simp
  with c l m f show ?thesis unfolding sz_def by blast
qed

theorem chunks_partition_witness:
  "(1::int) \<le> 2 \<and>
   (\<exists>bs. chunks [''a'', ''b'', ''c'', ''d'', ''e''] 2 = Inr bs
      \<and> int (length bs) = \<lceil>real (length [''a'', ''b'', ''c'', ''d'', ''e'']) / real_of_int 2\<rceil>
      \<and> (\<forall>b \<in> set bs. length b \<le> nat 2)
      \<and> (\<forall>k. Suc k < length bs \<longrightarrow> length (bs ! k) = nat 2)
      \<and> concat bs = [''a'', ''b'', ''c'', ''d'', ''e''])"
proof -
  have h: "(1::int) \<le> 2" by simp
  show ?thesis using h chunks_partition [OF h, of "[''a'', ''b'', ''c'', ''d'', ''e'']"] by blast
qed

section \<open>The Mutator sends one request\<close>

lemma trace_emit [simp]: "trace (emit e w) = trace w @ [e]"
  and remote_emit [simp]: "remote (emit e w) = remote w"
  by (simp_all add: emit_def)

text \<open>
  Claim C8. For every batch and every world, \<open>process_batch\<close> adds exactly one event to
  the trace in a valid mode: in mode \<open>trash\<close> one \<open>BatchModify\<close> request for the whole batch
  that adds the label \<open>TRASH\<close> and removes none, in mode \<open>delete\<close> one \<open>BatchDelete\<close>
  request for the whole batch; the remote state is the one that request leaves, and the
  call returns normally exactly when the request succeeds. For any other mode it raises
  \<open>ValueError\<close> and leaves the world as it was: no request is sent.
\<close>

theorem process_batch_one_call:
  assumes "process_batch svc ids md w = (res, w')"
  shows "(md = ''trash'' \<longrightarrow>
            trace w' = trace w @ [BatchModify ''me'' ids [''TRASH''] []]
            \<and> remote w' = snd (messages_batchModify svc (remote w) ''me'' ids [''TRASH''] [])
            \<and> (res = Ok () \<longleftrightarrow> fst (messages_batchModify svc (remote w) ''me'' ids [''TRASH''] []) = Inr ()))
       \<and> (md = ''delete'' \<longrightarrow>
            trace w' = trace w @ [BatchDelete ''me'' ids]
            \<and> remote w' = snd (messages_batchDelete svc (remote w) ''me'' ids)
            \<and> (res = Ok () \<longleftrightarrow> fst (messages_batchDelete svc (remote w) ''me'' ids) = Inr ()))
       \<and> (md \<noteq> ''trash'' \<and> md \<noteq> ''delete'' \<longrightarrow>
            (\<exists>msg. res = Raise (ValueError msg)) \<and> w' = w)"
proof (intro conjI impI)
  assume md: "md = ''trash''"
  obtain x r' where x: "messages_batchModify svc (remote w) ''me'' ids [''TRASH''] [] = (x, r')"
    by (cases "messages_batchModify svc (remote w) ''me'' ids [''TRASH''] []")
  from assms md x show "trace w' = trace w @ [BatchModify ''me'' ids [''TRASH''] []]"
    by (cases x) (auto simp: process_batch_def call_batchModify_def)
  from assms md x show "remote w' = snd (messages_batchModify svc (remote w) ''me'' ids [''TRASH''] [])"
    by (cases x) (auto simp: process_batch_def call_batchModify_def)
  from assms md x show "res = Ok () \<longleftrightarrow> fst (messages_batchModify svc (remote w) ''me'' ids [''TRASH''] []) = Inr ()"
    by (cases x) (auto simp: process_batch_def call_batchModify_def)
next
  assume md: "md = ''delete''"
  obtain x r' where x: "messages_batchDelete svc (remote w) ''me'' ids = (x, r')"
    by (cases "messages_batchDelete svc (remote w) ''me'' ids")
  from assms md x show "trace w' = trace w @ [BatchDelete ''me'' ids]"
    by (cases x) (auto simp: process_batch_def call_batchDelete_def)
  from assms md x show "remote w' = snd (messages_batchDelete svc (remote w) ''me'' ids)"
    by (cases x) (auto simp: process_batch_def call_batchDelete_def)
  from assms md x show "res = Ok () \<longleftrightarrow> fst (messages_batchDelete svc (remote w) ''me'' ids) = Inr ()"
    by (cases x) (auto simp: process_batch_def call_batchDelete_def)
next
  assume "md \<noteq> ''trash'' \<and> md \<noteq> ''delete''"
  with assms show "\<exists>msg. res = Raise (ValueError msg)" by (auto simp: process_batch_def)
next
  assume "md \<noteq> ''trash'' \<and> md \<noteq> ''delete''"
  with assms show "w' = w" by (auto simp: process_batch_def)
qed

theorem process_batch_one_call_witness:
  "trace (snd (process_batch (paged_service two_pages) [''a''] ''trash'' (fresh ())))
     = trace (fresh ()) @ [BatchModify ''me'' [''a''] [''TRASH''] []]
   \<and> trace (snd (process_batch (paged_service two_pages) [''a''] ''delete'' (fresh ())))
     = trace (fresh ()) @ [BatchDelete ''me'' [''a'']]
   \<and> snd (process_batch (paged_service two_pages) [''a''] ''purge'' (fresh ())) = fresh ()"
  using
    process_batch_one_call [of "paged_service two_pages" "[''a'']" "''trash''" "fresh ()"
      "fst (process_batch (paged_service two_pages) [''a''] ''trash'' (fresh ()))"
      "snd (process_batch (paged_service two_pages) [''a''] ''trash'' (fresh ()))"]
    process_batch_one_call [of "paged_service two_pages" "[''a'']" "''delete''" "fresh ()"
      "fst (process_batch (paged_service two_pages) [''a''] ''delete'' (fresh ()))"
      "snd (process_batch (paged_service two_pages) [''a''] ''delete'' (fresh ()))"]
    process_batch_one_call [of "paged_service two_pages" "[''a'']" "''purge''" "fresh ()"
      "fst (process_batch (paged_service two_pages) [''a''] ''purge'' (fresh ()))"
      "snd (process_batch (paged_service two_pages) [''a''] ''purge'' (fresh ()))"]
  by simp

section \<open>What each operation adds to the trace\<close>

lemma yields_append [simp]: "yields (xs @ ys) = yields xs @ yields ys"
  by (induction xs rule: yields.induct) simp_all

lemma batches_append [simp]: "batches (xs @ ys) = batches xs @ batches ys"
  by (induction xs rule: batches.induct) simp_all

lemma replies_append [simp]: "replies (xs @ ys) = replies xs @ replies ys"
  by (induction xs rule: replies.induct) simp_all

lemma requests_append [simp]: "requests (xs @ ys) = requests xs @ requests ys"
  by (induction xs rule: requests.induct) simp_all

lemma reported_append [simp]: "reported (xs @ ys) = reported xs @ reported ys"
  by (induction xs rule: reported.induct) simp_all

lemma mutations_append [simp]: "mutations (xs @ ys) = mutations xs @ mutations ys"
  by (simp add: mutations_def)

lemma mutations_Nil [simp]: "mutations [] = []"
  by (simp add: mutations_def)

lemma mutations_Cons [simp]:
  "mutations (e # es) = (if is_mutation e then e # mutations es else mutations es)"
  by (simp add: mutations_def)

lemma batches_mutations: "batches (mutations tr) = batches tr"
  unfolding mutations_def by (induction tr rule: batches.induct) simp_all

lemma is_mutation_call [simp]: "is_mutation (mutation_call md ids)"
  by (simp add: mutation_call_def)

lemma mutation_call_views [simp]:
  "yields (mutation_call md ids # es) = yields es"
  "replies (mutation_call md ids # es) = replies es"
  "requests (mutation_call md ids # es) = requests es"
  "reported (mutation_call md ids # es) = reported es"
  "batches (mutation_call md ids # es) = ids # batches es"
  by (simp_all add: mutation_call_def)

lemma batches_mutation_calls [simp]: "batches (map (mutation_call md) gs) = gs"
  by (induction gs) simp_all

lemma call_list_trace:
  assumes "call_list svc q ist tok w = (res, w')"
  shows "trace w' = trace w @ ListCall ''me'' q ist tok 500
           # (case res of Ok resp \<Rightarrow> [ListReply resp] | Raise e \<Rightarrow> [])"
proof -
  obtain x r' where x: "messages_list svc (remote w) ''me'' q ist tok 500 = (x, r')"
    by (cases "messages_list svc (remote w) ''me'' q ist tok 500")
  with assms show ?thesis by (cases x) (auto simp: call_list_def)
qed

lemma process_batch_trace:
  assumes "md = ''trash'' \<or> md = ''delete''" and "process_batch svc ids md w = (res, w')"
  shows "trace w' = trace w @ [mutation_call md ids]"
proof (cases "md = ''trash''")
  case True
  obtain x r' where x: "messages_batchModify svc (remote w) ''me'' ids [''TRASH''] [] = (x, r')"
    by (cases "messages_batchModify svc (remote w) ''me'' ids [''TRASH''] []")
  with assms(2) True show ?thesis
    by (cases x) (auto simp: process_batch_def call_batchModify_def mutation_call_def)
next
  case False
  with assms(1) have d: "md = ''delete''" by simp
  obtain x r' where x: "messages_batchDelete svc (remote w) ''me'' ids = (x, r')"
    by (cases "messages_batchDelete svc (remote w) ''me'' ids")
  with assms(2) d show ?thesis
    by (cases x) (auto simp: process_batch_def call_batchDelete_def mutation_call_def)
qed

lemma sleep_trace:
  assumes "sleep svc ms w = (res, w')"
  shows "trace w' = trace w @ (case res of Ok u \<Rightarrow> [Sleep ms] | Raise e \<Rightarrow> [])"
proof -
  obtain x r' where x: "pause svc (remote w) ms = (x, r')"
    by (cases "pause svc (remote w) ms")
  with assms show ?thesis by (cases x) (auto simp: sleep_def split: if_splits)
qed

text \<open>What a pass over the groups adds to the trace: one mutating request for each group
  reached, none of the lister's events, no report.\<close>

lemma process_groups_trace:
  assumes "md = ''trash'' \<or> md = ''delete''" and "process_groups svc md ms gs w = (res, w')"
  shows "\<exists>n \<le> length gs.
           mutations (trace w') = mutations (trace w) @ map (mutation_call md) (take n gs)
         \<and> (res = Ok () \<longrightarrow> n = length gs)
         \<and> yields (trace w') = yields (trace w)
         \<and> replies (trace w') = replies (trace w)
         \<and> requests (trace w') = requests (trace w)
         \<and> reported (trace w') = reported (trace w)"
  using assms(2)
proof (induction gs arbitrary: w)
  case Nil
  then show ?case by simp
next
  case (Cons g gs)
  obtain r1 w1 where pb: "process_batch svc g md w = (r1, w1)"
    by (cases "process_batch svc g md w")
  have t1: "trace w1 = trace w @ [mutation_call md g]"
    by (rule process_batch_trace [OF assms(1) pb])
  show ?case
  proof (cases r1)
    case (Raise e)
    with Cons.prems pb have "w' = w1" by simp
    with t1 have "mutations (trace w') = mutations (trace w) @ map (mutation_call md) (take 1 (g # gs))"
      "yields (trace w') = yields (trace w)" "replies (trace w') = replies (trace w)"
      "requests (trace w') = requests (trace w)" "reported (trace w') = reported (trace w)"
      by simp_all
    moreover have "res \<noteq> Ok ()" using Cons.prems pb Raise by auto
    ultimately show ?thesis by (intro exI [of _ 1]) simp
  next
    case (Ok u)
    obtain r2 w2 where sl: "sleep svc ms w1 = (r2, w2)" by (cases "sleep svc ms w1")
    note t2 = sleep_trace [OF sl]
    show ?thesis
    proof (cases r2)
      case (Raise e)
      with Cons.prems pb Ok sl have "w' = w2" "res \<noteq> Ok ()" by auto
      with t1 t2 Raise have "mutations (trace w') = mutations (trace w) @ map (mutation_call md) (take 1 (g # gs))"
        "yields (trace w') = yields (trace w)" "replies (trace w') = replies (trace w)"
        "requests (trace w') = requests (trace w)" "reported (trace w') = reported (trace w)"
        by simp_all
      with \<open>res \<noteq> Ok ()\<close> show ?thesis by (intro exI [of _ 1]) simp
    next
      case (Ok u')
      with Cons.prems pb \<open>r1 = Ok u\<close> sl have "process_groups svc md ms gs w2 = (res, w')" by simp
      from Cons.IH [OF this] obtain n where n: "n \<le> length gs"
        "mutations (trace w') = mutations (trace w2) @ map (mutation_call md) (take n gs)"
        "res = Ok () \<longrightarrow> n = length gs"
        "yields (trace w') = yields (trace w2)" "replies (trace w') = replies (trace w2)"
        "requests (trace w') = requests (trace w2)" "reported (trace w') = reported (trace w2)"
        by blast
      with t1 t2 Ok show ?thesis by (intro exI [of _ "Suc n"]) simp
    qed
  qed
qed

section \<open>The driver's loop invariant\<close>

lemma plan_Nil [simp]: "plan B [] = []"
  by (simp add: plan_def slices_Nil)

lemma plan_append:
  assumes "5000 dvd length xs" "b \<noteq> []" "length b \<le> 5000"
  shows "plan B (xs @ b) = plan B xs @ slices b B 0"
proof -
  have "slices (xs @ b) 5000 0 = slices xs 5000 0 @ slices b 5000 0"
    using assms(1) by (intro slices_append_aligned) simp_all
  moreover have "slices b 5000 0 = [b]"
    using assms(2,3) by (intro slices_single) simp_all
  ultimately show ?thesis by (simp add: plan_def)
qed

lemma planned_Nil [simp]: "planned a [] = []"
  by (simp add: planned_def)

lemma planned_append:
  assumes "5000 dvd length xs" "b \<noteq> []" "length b \<le> 5000"
  shows "planned a (xs @ b)
         = planned a xs @ (if dry_run a then [] else map (mutation_call (mode a)) (slices b (nat (batch_size a)) 0))"
  using plan_append [OF assms] by (simp add: planned_def)

text \<open>One flush: the mutating requests added are an initial part of those for the
  buffer's groups, all of them when the flush returns; nothing else changes.\<close>

lemma flush_trace:
  assumes "accepted a" and "flush svc a buffered w = (res, w')"
  shows "\<exists>n. mutations (trace w')
               = mutations (trace w) @ take n (if dry_run a then [] else map (mutation_call (mode a)) (slices buffered (nat (batch_size a)) 0))
         \<and> (res = Ok () \<longrightarrow> mutations (trace w')
               = mutations (trace w) @ (if dry_run a then [] else map (mutation_call (mode a)) (slices buffered (nat (batch_size a)) 0)))
         \<and> yields (trace w') = yields (trace w)
         \<and> replies (trace w') = replies (trace w)
         \<and> requests (trace w') = requests (trace w)
         \<and> reported (trace w') = reported (trace w)"
proof (cases "dry_run a")
  case True
  with assms(2) show ?thesis by (auto simp: flush_def)
next
  case False
  have md: "mode a = ''trash'' \<or> mode a = ''delete''" and B: "1 \<le> batch_size a"
    using assms(1) by (auto simp: accepted_def)
  from B have ch: "chunks buffered (batch_size a) = Inr (slices buffered (nat (batch_size a)) 0)"
    by (simp add: chunks_def)
  with assms(2) False
  have "process_groups svc (mode a) (sleep_ms a) (slices buffered (nat (batch_size a)) 0) w = (res, w')"
    by (simp add: flush_def)
  from process_groups_trace [OF md this] obtain n where
    n: "mutations (trace w') = mutations (trace w)
          @ map (mutation_call (mode a)) (take n (slices buffered (nat (batch_size a)) 0))"
       "res = Ok () \<longrightarrow> n = length (slices buffered (nat (batch_size a)) 0)"
       "yields (trace w') = yields (trace w)" "replies (trace w') = replies (trace w)"
       "requests (trace w') = requests (trace w)" "reported (trace w') = reported (trace w)"
    by blast
  show ?thesis
    using False n by (intro exI [of _ n]) (auto simp: take_map)
qed

lemma loop_body_views:
  assumes "accepted a" and "loop_body svc a i c w = (res, w')"
  shows "yields (trace w') = yields (trace w)" "replies (trace w') = replies (trace w)"
    "requests (trace w') = requests (trace w)"
proof -
  obtain r1 w1 where f: "flush svc a (fst c @ [i]) w = (r1, w1)"
    by (cases "flush svc a (fst c @ [i]) w")
  from flush_trace [OF assms(1) f]
  have v: "yields (trace w1) = yields (trace w)" "replies (trace w1) = replies (trace w)"
    "requests (trace w1) = requests (trace w)" by blast+
  from assms(2) f v show "yields (trace w') = yields (trace w)"
    by (cases r1) (auto simp: loop_body_def Let_def split: if_splits)
  from assms(2) f v show "replies (trace w') = replies (trace w)"
    by (cases r1) (auto simp: loop_body_def Let_def split: if_splits)
  from assms(2) f v show "requests (trace w') = requests (trace w)"
    by (cases r1) (auto simp: loop_body_def Let_def split: if_splits)
qed

lemma loop_body_quiet: "accepted a \<Longrightarrow> quiet (loop_body svc a)"
  unfolding quiet_def using loop_body_views [of a svc] by (metis prod.collapse)

lemma collect_quiet: "quiet collect"
  by (simp add: quiet_def collect_def)

text \<open>The loop body keeps the invariant when it returns, and leaves the requests an
  initial part of the planned ones when it raises.\<close>

lemma loop_body_between:
  assumes acc: "accepted a" and inv: "between_flushes a c w"
    and run: "loop_body svc a i c (emit (Yield i) w) = (Ok c', w')"
  shows "between_flushes a c' w'"
proof -
  from inv obtain flushed where fl: "yields (trace w) = flushed @ fst c" "5000 dvd length flushed"
    "length (fst c) < 5000" "mutations (trace w) = planned a flushed"
    "snd c = length (yields (trace w))" "reported (trace w) = []"
    unfolding between_flushes_def by blast
  show ?thesis
  proof (cases "5000 \<le> length (fst c @ [i])")
    case False
    with run have "c' = (fst c @ [i], snd c + 1)" "w' = emit (Yield i) w"
      by (auto simp: loop_body_def Let_def)
    with fl False show ?thesis
      unfolding between_flushes_def by (intro exI [of _ flushed]) simp
  next
    case True
    with fl(3) have len: "length (fst c @ [i]) = 5000" by simp
    obtain r1 w1 where f: "flush svc a (fst c @ [i]) (emit (Yield i) w) = (r1, w1)"
      by (cases "flush svc a (fst c @ [i]) (emit (Yield i) w)")
    with run True have r1: "r1 = Ok ()" and c': "c' = ([], snd c + 1)"
      and w': "w' = emit (Print (MsgProcessedSoFar (snd c + 1))) w1"
      by (cases r1; auto simp: loop_body_def Let_def)+
    from flush_trace [OF acc f] r1
    have m: "mutations (trace w1) = mutations (trace (emit (Yield i) w))
               @ (if dry_run a then [] else map (mutation_call (mode a)) (slices (fst c @ [i]) (nat (batch_size a)) 0))"
      and v: "yields (trace w1) = yields (trace (emit (Yield i) w))"
        "reported (trace w1) = reported (trace (emit (Yield i) w))"
      by blast+
    have pl: "planned a (flushed @ (fst c @ [i]))
        = planned a flushed @ (if dry_run a then [] else map (mutation_call (mode a)) (slices (fst c @ [i]) (nat (batch_size a)) 0))"
      using fl(2) len by (intro planned_append) simp_all
    have "yields (trace w') = (flushed @ fst c @ [i]) @ fst c'"
      using w' v fl(1) c' by simp
    moreover have "5000 dvd length (flushed @ fst c @ [i])"
      using fl(2) len by simp
    moreover have "mutations (trace w') = planned a (flushed @ fst c @ [i])"
      using w' m fl(4) pl by simp
    moreover have "snd c' = length (yields (trace w'))"
      using w' v fl(1,5) c' by simp
    moreover have "reported (trace w') = []"
      using w' v fl(6) by simp
    moreover have "length (fst c') < 5000" using c' by simp
    ultimately show ?thesis unfolding between_flushes_def by blast
  qed
qed

lemma take_append_take: "take (length xs + n) (xs @ ys) = xs @ take n ys"
  by simp

lemma loop_body_raise:
  assumes acc: "accepted a" and inv: "between_flushes a c w"
    and run: "loop_body svc a i c (emit (Yield i) w) = (Raise e, w')"
  shows "in_progress a w'"
proof -
  from inv obtain flushed where fl: "yields (trace w) = flushed @ fst c" "5000 dvd length flushed"
    "length (fst c) < 5000" "mutations (trace w) = planned a flushed"
    unfolding between_flushes_def by blast
  have T: "5000 \<le> length (fst c @ [i])"
    using run by (auto simp: loop_body_def Let_def split: if_splits)
  with fl(3) have len: "length (fst c @ [i]) = 5000" by simp
  obtain r1 w1 where f: "flush svc a (fst c @ [i]) (emit (Yield i) w) = (r1, w1)"
    by (cases "flush svc a (fst c @ [i]) (emit (Yield i) w)")
  with run T have w': "w' = w1"
    by (cases r1; auto simp: loop_body_def Let_def)
  from flush_trace [OF acc f] obtain n where
    m: "mutations (trace w1) = mutations (trace (emit (Yield i) w))
               @ take n (if dry_run a then [] else map (mutation_call (mode a)) (slices (fst c @ [i]) (nat (batch_size a)) 0))"
    and v: "yields (trace w1) = yields (trace (emit (Yield i) w))"
    by blast
  have pl: "planned a (flushed @ (fst c @ [i]))
        = planned a flushed @ (if dry_run a then [] else map (mutation_call (mode a)) (slices (fst c @ [i]) (nat (batch_size a)) 0))"
    using fl(2) len by (intro planned_append) simp_all
  have y: "yields (trace w') = flushed @ (fst c @ [i])" using w' v fl(1) by simp
  have "mutations (trace w') = take (length (planned a flushed) + n) (planned a (yields (trace w')))"
    unfolding y pl take_append_take using w' m fl(4) by simp
  then show ?thesis unfolding in_progress_def by blast
qed

lemma between_in_progress:
  assumes "between_flushes a c w"
  shows "in_progress a w"
proof -
  from assms obtain flushed where fl: "yields (trace w) = flushed @ fst c" "5000 dvd length flushed"
    "length (fst c) < 5000" "mutations (trace w) = planned a flushed"
    unfolding between_flushes_def by blast
  show ?thesis
  proof (cases "fst c = []")
    case True
    with fl have "mutations (trace w) = take (length (planned a flushed)) (planned a (yields (trace w)))"
      by simp
    then show ?thesis unfolding in_progress_def by blast
  next
    case False
    have "planned a (flushed @ fst c)
        = planned a flushed @ (if dry_run a then [] else map (mutation_call (mode a)) (slices (fst c) (nat (batch_size a)) 0))"
      using fl(2,3) False by (intro planned_append) simp_all
    then have "mutations (trace w) = take (length (planned a flushed)) (planned a (yields (trace w)))"
      using fl(1,4) by simp
    then show ?thesis unfolding in_progress_def by blast
  qed
qed

section \<open>Invariants of the lister's loops\<close>

text \<open>An invariant rule for the lister: \<open>S\<close> holds between two steps (of the lister's
  count, the consumer's state and the world), \<open>F\<close> of the world when the run stops early.\<close>

lemma scan_page_cap:
  "mx \<noteq> 0 \<and> mx \<le> int tot \<Longrightarrow> scan_page mx body (m # ms) tot c w = (Ok (Returned c), w)"
  by simp

lemma scan_page_skip:
  "\<not> (mx \<noteq> 0 \<and> mx \<le> int tot) \<Longrightarrow> \<not> truthy (msg_id m) \<Longrightarrow>
   scan_page mx body (m # ms) tot c w = scan_page mx body ms tot c w"
  by auto

lemma scan_page_yield:
  "\<not> (mx \<noteq> 0 \<and> mx \<le> int tot) \<Longrightarrow> truthy (msg_id m) \<Longrightarrow>
   scan_page mx body (m # ms) tot c w =
     (case body (the (msg_id m)) c (emit (Yield (the (msg_id m))) w) of
        (Raise e, w') \<Rightarrow> (Raise e, w')
      | (Ok c', w') \<Rightarrow> scan_page mx body ms (Suc tot) c' w')"
  by auto

lemma scan_page_rule:
  assumes ok: "\<And>tot c w i c' w'. \<lbrakk>S tot c w; \<not> (mx \<noteq> 0 \<and> mx \<le> int tot);
                  body i c (emit (Yield i) w) = (Ok c', w')\<rbrakk> \<Longrightarrow> S (Suc tot) c' w'"
    and bad: "\<And>tot c w i e w'. \<lbrakk>S tot c w; \<not> (mx \<noteq> 0 \<and> mx \<le> int tot);
                  body i c (emit (Yield i) w) = (Raise e, w')\<rbrakk> \<Longrightarrow> F w'"
    and inv: "S tot c w"
    and run: "scan_page mx body ms tot c w = (res, w')"
  shows "case res of
           Ok (Exhausted tot' c') \<Rightarrow> S tot' c' w'
         | Ok (Returned c') \<Rightarrow> (\<exists>tot'. S tot' c' w')
         | Raise e \<Rightarrow> F w'"
  using inv run
proof (induction ms arbitrary: tot c w)
  case Nil
  then show ?case by auto
next
  case (Cons m ms)
  show ?case
  proof (cases "mx \<noteq> 0 \<and> mx \<le> int tot")
    case True
    with Cons.prems(2) have "res = Ok (Returned c)" "w' = w"
      using scan_page_cap [OF True, of body m ms c w] by simp_all
    with Cons.prems(1) show ?thesis by auto
  next
    case cap: False
    show ?thesis
    proof (cases "truthy (msg_id m)")
      case False
      have "scan_page mx body ms tot c w = (res, w')"
        using scan_page_skip [OF cap False, of body ms c w] Cons.prems(2) by simp
      from Cons.IH [OF Cons.prems(1) this] show ?thesis .
    next
      case True
      obtain r1 w1 where b: "body (the (msg_id m)) c (emit (Yield (the (msg_id m))) w) = (r1, w1)"
        by (cases "body (the (msg_id m)) c (emit (Yield (the (msg_id m))) w)")
      note step = scan_page_yield [OF cap True, of body ms c w]
      show ?thesis
      proof (cases r1)
        case (Raise e)
        with b Cons.prems(2) have "res = Raise e" "w' = w1"
          unfolding step by simp_all
        moreover have "F w1" using bad [OF Cons.prems(1) cap] b Raise by simp
        ultimately show ?thesis by simp
      next
        case (Ok c1)
        with b Cons.prems(2) have "scan_page mx body ms (Suc tot) c1 w1 = (res, w')"
          unfolding step by simp
        moreover have "S (Suc tot) c1 w1" using ok [OF Cons.prems(1) cap] b Ok by simp
        ultimately show ?thesis using Cons.IH by blast
      qed
    qed
  qed
qed

lemma page_loop_rule:
  assumes ok: "\<And>tot c w i c' w'. \<lbrakk>S tot c w; \<not> (mx \<noteq> 0 \<and> mx \<le> int tot);
                  body i c (emit (Yield i) w) = (Ok c', w')\<rbrakk> \<Longrightarrow> S (Suc tot) c' w'"
    and bad: "\<And>tot c w i e w'. \<lbrakk>S tot c w; \<not> (mx \<noteq> 0 \<and> mx \<le> int tot);
                  body i c (emit (Yield i) w) = (Raise e, w')\<rbrakk> \<Longrightarrow> F w'"
    and list_ok: "\<And>tot c w tok resp w'. \<lbrakk>S tot c w;
                  call_list svc q ist tok w = (Ok resp, w')\<rbrakk> \<Longrightarrow> S tot c w'"
    and list_bad: "\<And>tot c w tok e w'. \<lbrakk>S tot c w;
                  call_list svc q ist tok w = (Raise e, w')\<rbrakk> \<Longrightarrow> F w'"
    and stop: "\<And>tot c w. S tot c w \<Longrightarrow> F w"
    and inv: "S tot c w"
    and run: "page_loop fuel svc q ist mx body tok tot c w = (res, w')"
  shows "case res of Some (Ok c') \<Rightarrow> (\<exists>tot'. S tot' c' w') | _ \<Rightarrow> F w'"
  using inv run
proof (induction fuel arbitrary: tok tot c w)
  case 0
  then show ?case using stop by auto
next
  case (Suc fuel)
  obtain r1 w1 where cl: "call_list svc q ist tok w = (r1, w1)"
    by (cases "call_list svc q ist tok w")
  show ?case
  proof (cases r1)
    case (Raise e)
    with cl Suc.prems(2) have "res = Some (Raise e)" "w' = w1" by auto
    moreover have "F w1" using list_bad [OF Suc.prems(1)] cl Raise by simp
    ultimately show ?thesis by simp
  next
    case (Ok resp)
    have S1: "S tot c w1" using list_ok [OF Suc.prems(1)] cl Ok by simp
    obtain r2 w2 where sp:
      "scan_page mx body (case messages resp of None \<Rightarrow> [] | Some ms \<Rightarrow> ms) tot c w1 = (r2, w2)"
      by (cases "scan_page mx body (case messages resp of None \<Rightarrow> [] | Some ms \<Rightarrow> ms) tot c w1")
    note sr = scan_page_rule [of S mx body F, OF ok bad S1 sp]
    show ?thesis
    proof (cases r2)
      case (Raise e)
      with cl Ok sp Suc.prems(2) have "res = Some (Raise e)" "w' = w2" by auto
      with sr Raise show ?thesis by simp
    next
      case r2: (Ok pe)
      show ?thesis
      proof (cases pe)
        case (Returned c2)
        with cl Ok sp r2 Suc.prems(2) have "res = Some (Ok c2)" "w' = w2" by auto
        with sr r2 Returned show ?thesis by simp
      next
        case (Exhausted tot2 c2)
        with sr r2 have S2: "S tot2 c2 w2" by simp
        show ?thesis
        proof (cases "truthy (nextPageToken resp)")
          case False
          with cl Ok sp r2 Exhausted Suc.prems(2) have "res = Some (Ok c2)" "w' = w2" by auto
          with S2 show ?thesis by auto
        next
          case True
          with cl Ok sp r2 Exhausted Suc.prems(2)
          have "page_loop fuel svc q ist mx body (nextPageToken resp) tot2 c2 w2 = (res, w')"
            by simp
          from Suc.IH [OF S2 this] show ?thesis .
        qed
      qed
    qed
  qed
qed

section \<open>The driver's run, from the first list request to the report\<close>

lemma call_list_views:
  assumes "call_list svc q ist tok w = (res, w')"
  shows "yields (trace w') = yields (trace w)" "mutations (trace w') = mutations (trace w)"
    "reported (trace w') = reported (trace w)"
  using call_list_trace [OF assms] by (cases res; simp)+

lemma get_service_views:
  assumes "get_service ev w = (res, w')"
  shows "yields (trace w') = yields (trace w)" "mutations (trace w') = mutations (trace w)"
    "reported (trace w') = reported (trace w)" "requests (trace w') = requests (trace w)"
    "replies (trace w') = replies (trace w)" "remote w' = remote w"
  using assms by (auto simp: get_service_def split: if_splits option.splits)

lemma between_call_list:
  assumes "between_flushes a c w" "call_list svc q ist tok w = (res, w')"
  shows "between_flushes a c w'"
  using assms(1) call_list_views [OF assms(2)] unfolding between_flushes_def by simp

text \<open>The driver's loop as a whole: the invariant holds when the lister is exhausted, and
  the requests are an initial part of the planned ones however the loop stops.\<close>

lemma driver_loop:
  assumes acc: "accepted a" and inv: "between_flushes a c w"
    and run: "page_loop fuel svc q ist mx (loop_body svc a) tok tot c w = (res, w')"
  shows "case res of Some (Ok c') \<Rightarrow> between_flushes a c' w' | _ \<Rightarrow> in_progress a w'"
proof -
  have "case res of Some (Ok c') \<Rightarrow> (\<exists>tot'::nat. between_flushes a c' w') | _ \<Rightarrow> in_progress a w'"
  proof (rule page_loop_rule [where S = "\<lambda>tot c w. between_flushes a c w"
          and F = "in_progress a", OF _ _ _ _ _ inv run])
    show "\<And>c w i c' w'. between_flushes a c w \<Longrightarrow>
           loop_body svc a i c (emit (Yield i) w) = (Ok c', w') \<Longrightarrow> between_flushes a c' w'"
      using loop_body_between [OF acc] by blast
    show "\<And>c w i e w'. between_flushes a c w \<Longrightarrow>
           loop_body svc a i c (emit (Yield i) w) = (Raise e, w') \<Longrightarrow> in_progress a w'"
      using loop_body_raise [OF acc] by blast
    show "\<And>c w tok resp w'. between_flushes a c w \<Longrightarrow>
           call_list svc q ist tok w = (Ok resp, w') \<Longrightarrow> between_flushes a c w'"
      using between_call_list by blast
    show "\<And>c w tok e w'. between_flushes a c w \<Longrightarrow>
           call_list svc q ist tok w = (Raise e, w') \<Longrightarrow> in_progress a w'"
      using between_call_list between_in_progress by blast
    show "\<And>c w. between_flushes a c w \<Longrightarrow> in_progress a w"
      by (rule between_in_progress)
  qed
  then show ?thesis by (auto split: option.splits result.splits)
qed

text \<open>A world in which nothing has been yielded, mutated or reported yet.\<close>

lemma between_start:
  assumes "yields (trace w) = []" "mutations (trace w) = []" "reported (trace w) = []"
  shows "between_flushes a ([], 0) w"
  unfolding between_flushes_def using assms by (intro exI [of _ "[]"]) simp

lemma try_block_trace:
  assumes acc: "accepted a"
    and start: "yields (trace w) = []" "mutations (trace w) = []" "reported (trace w) = []"
    and run: "try_block fuel ev svc a w = (res, w')"
  shows "in_progress a w'"
    and "res = Some (Ok ()) \<Longrightarrow>
           mutations (trace w') = planned a (yields (trace w'))
         \<and> reported (trace w') = [length (yields (trace w'))]"
proof -
  obtain r1 w1 where gs: "get_service ev w = (r1, w1)" by (cases "get_service ev w")
  note v1 = get_service_views [OF gs]
  have b1: "between_flushes a ([], 0) w1"
    using v1 start by (intro between_start) simp_all
  have "in_progress a w' \<and> (res = Some (Ok ()) \<longrightarrow>
           mutations (trace w') = planned a (yields (trace w'))
         \<and> reported (trace w') = [length (yields (trace w'))])"
  proof (cases r1)
    case (Raise e)
    with gs run have "res = Some (Raise e)" "w' = w1" by (auto simp: try_block_def)
    with between_in_progress [OF b1] show ?thesis by simp
  next
    case (Ok u)
    obtain r2 w2 where pl: "page_loop fuel svc (if all_flag a then None else query a)
        (include_spam_trash a) (max_count a) (loop_body svc a) None 0 ([], 0) w1 = (r2, w2)"
      by (cases "page_loop fuel svc (if all_flag a then None else query a)
        (include_spam_trash a) (max_count a) (loop_body svc a) None 0 ([], 0) w1")
    note dl = driver_loop [OF acc b1 pl]
    from gs Ok pl run have tb:
      "(case (r2, w2) of
          (None, w2) \<Rightarrow> (None, w2)
        | (Some (Raise e), w2) \<Rightarrow> (Some (Raise e), w2)
        | (Some (Ok (buffered, tot)), w2) \<Rightarrow>
            (case (if buffered \<noteq> [] then flush svc a buffered w2 else (Ok (), w2)) of
               (Raise e, w3) \<Rightarrow> (Some (Raise e), w3)
             | (Ok u', w3) \<Rightarrow>
                 (Some (Ok ()),
                  (if mode a = ''trash'' then emit (Print MsgTrashNote) else (\<lambda>w. w))
                    (emit (Print (MsgDone tot)) w3)))) = (res, w')"
      by (simp add: try_block_def list_message_ids_def)
    show ?thesis
    proof (cases r2)
      case None
      with tb dl show ?thesis by auto
    next
      case (Some r)
      show ?thesis
      proof (cases r)
        case (Raise e)
        with Some tb dl show ?thesis by auto
      next
        case ok: (Ok c)
        obtain buffered tot where c: "c = (buffered, tot)" by (cases c)
        from dl Some ok c have bf: "between_flushes a (buffered, tot) w2" by simp
        then obtain flushed where fl: "yields (trace w2) = flushed @ buffered"
          "5000 dvd length flushed" "length buffered < 5000"
          "mutations (trace w2) = planned a flushed" "tot = length (yields (trace w2))"
          "reported (trace w2) = []"
          unfolding between_flushes_def by auto
        obtain r3 w3 where f: "(if buffered \<noteq> [] then flush svc a buffered w2 else (Ok (), w2)) = (r3, w3)"
          by (cases "if buffered \<noteq> [] then flush svc a buffered w2 else (Ok (), w2)")
        have all3: "(\<exists>n. mutations (trace w3) = take n (planned a (yields (trace w3))))
            \<and> (r3 = Ok () \<longrightarrow> mutations (trace w3) = planned a (yields (trace w3)))
            \<and> yields (trace w3) = yields (trace w2)
            \<and> reported (trace w3) = reported (trace w2)"
        proof (cases "buffered = []")
          case True
          with f have "w3 = w2" by simp
          moreover have "mutations (trace w2) = take (length (planned a flushed)) (planned a (yields (trace w2)))"
            using fl True by simp
          moreover have "mutations (trace w2) = planned a (yields (trace w2))"
            using fl True by simp
          ultimately show ?thesis by blast
        next
          case False
          with f have f': "flush svc a buffered w2 = (r3, w3)" by simp
          from flush_trace [OF acc f'] obtain n where
            m: "mutations (trace w3) = mutations (trace w2)
                 @ take n (if dry_run a then [] else map (mutation_call (mode a)) (slices buffered (nat (batch_size a)) 0))"
               "r3 = Ok () \<longrightarrow> mutations (trace w3) = mutations (trace w2)
                 @ (if dry_run a then [] else map (mutation_call (mode a)) (slices buffered (nat (batch_size a)) 0))"
            and v: "yields (trace w3) = yields (trace w2)" "reported (trace w3) = reported (trace w2)"
            by blast
          have pl: "planned a (flushed @ buffered) = planned a flushed
              @ (if dry_run a then [] else map (mutation_call (mode a)) (slices buffered (nat (batch_size a)) 0))"
            using fl(2,3) False by (intro planned_append) simp_all
          have "mutations (trace w3) = take (length (planned a flushed) + n) (planned a (yields (trace w3)))"
            unfolding v fl(1) pl take_append_take using m(1) fl(4) by simp
          moreover have "r3 = Ok () \<longrightarrow> mutations (trace w3) = planned a (yields (trace w3))"
            unfolding v fl(1) pl using m(2) fl(4) by simp
          ultimately show ?thesis using v by blast
        qed
        then have fin: "\<exists>n. mutations (trace w3) = take n (planned a (yields (trace w3)))"
          and fin_ok: "r3 = Ok () \<longrightarrow> mutations (trace w3) = planned a (yields (trace w3))"
          and v3: "yields (trace w3) = yields (trace w2)" "reported (trace w3) = reported (trace w2)"
          by blast+
        show ?thesis
        proof (cases r3)
          case (Raise e)
          with tb Some ok c f have "res = Some (Raise e)" "w' = w3" by auto
          with fin show ?thesis unfolding in_progress_def by simp
        next
          case (Ok u')
          with tb Some ok c f have res: "res = Some (Ok ())"
            and w': "w' = (if mode a = ''trash'' then emit (Print MsgTrashNote) else (\<lambda>w. w))
                    (emit (Print (MsgDone tot)) w3)"
            by auto
          from w' have t: "mutations (trace w') = mutations (trace w3)"
            "yields (trace w') = yields (trace w3)"
            "reported (trace w') = reported (trace w3) @ [tot]"
            by simp_all
          from fin_ok Ok have "mutations (trace w3) = planned a (yields (trace w3))" by simp
          with t v3 fl(5,6) have "mutations (trace w') = planned a (yields (trace w'))"
            "reported (trace w') = [length (yields (trace w'))]" by simp_all
          moreover from this(1) have "in_progress a w'"
            unfolding in_progress_def by (intro exI [of _ "length (planned a (yields (trace w')))"]) simp
          ultimately show ?thesis by simp
        qed
      qed
    qed
  qed
  then show "in_progress a w'"
    and "res = Some (Ok ()) \<Longrightarrow>
           mutations (trace w') = planned a (yields (trace w'))
         \<and> reported (trace w') = [length (yields (trace w'))]"
    by blast+
qed

lemma in_progress_print:
  "in_progress a w \<Longrightarrow> in_progress a (emit (Print m) w)"
  unfolding in_progress_def by simp

lemma main_rejected:
  assumes "\<not> accepted a" and "main fuel ev svc a w = (res, w')"
  shows "res = Some (Exit 2)" and "\<exists>es. trace w' = trace w @ es \<and> (\<forall>e \<in> set es. \<exists>m. e = Print m)"
  using assms by (auto simp: accepted_def main_def split: if_splits)

lemma main_accepted:
  assumes "accepted a" and "main fuel ev svc a w = (res, w')"
  obtains r w1 where
    "try_block fuel ev svc a
       (emit (Print (MsgBatch (batch_size a) (max_count a) (include_spam_trash a)))
         (emit (Print (MsgMode (mode a) (dry_run a)))
           (emit (Print (MsgTarget (if all_flag a then None else query a))) w))) = (r, w1)"
    and "res = (case r of None \<Rightarrow> None | Some (Ok u) \<Rightarrow> Some Completed
                 | Some (Raise (HttpError d)) \<Rightarrow> Some (Exit 1)
                 | Some (Raise KeyboardInterrupt) \<Rightarrow> Some (Exit 130)
                 | Some (Raise (SystemExit n)) \<Rightarrow> Some (Exit n)
                 | Some (Raise e) \<Rightarrow> Some (Uncaught e))"
    and "w' = w1 \<or> (\<exists>m. w' = emit (Print m) w1)"
proof -
  obtain r w1 where tb: "try_block fuel ev svc a
       (emit (Print (MsgBatch (batch_size a) (max_count a) (include_spam_trash a)))
         (emit (Print (MsgMode (mode a) (dry_run a)))
           (emit (Print (MsgTarget (if all_flag a then None else query a))) w))) = (r, w1)"
    by (cases "try_block fuel ev svc a
       (emit (Print (MsgBatch (batch_size a) (max_count a) (include_spam_trash a)))
         (emit (Print (MsgMode (mode a) (dry_run a)))
           (emit (Print (MsgTarget (if all_flag a then None else query a))) w)))")
  from assms tb have "res = (case r of None \<Rightarrow> None | Some (Ok u) \<Rightarrow> Some Completed
                 | Some (Raise (HttpError d)) \<Rightarrow> Some (Exit 1)
                 | Some (Raise KeyboardInterrupt) \<Rightarrow> Some (Exit 130)
                 | Some (Raise (SystemExit n)) \<Rightarrow> Some (Exit n)
                 | Some (Raise e) \<Rightarrow> Some (Uncaught e))"
    by (auto simp: accepted_def main_def split: option.splits result.splits exn.splits)
  moreover from assms tb have "w' = w1 \<or> (\<exists>m. w' = emit (Print m) w1)"
    by (auto simp: accepted_def main_def split: option.splits result.splits exn.splits)
  ultimately show ?thesis using that tb by blast
qed

lemma main_trace:
  assumes start: "yields (trace w) = []" "mutations (trace w) = []" "reported (trace w) = []"
    and run: "main fuel ev svc a w = (res, w')"
  shows "in_progress a w'"
    and "res = Some Completed \<Longrightarrow>
           accepted a \<and> mutations (trace w') = planned a (yields (trace w'))
         \<and> reported (trace w') = [length (yields (trace w'))]"
proof -
  have "in_progress a w' \<and> (res = Some Completed \<longrightarrow>
           accepted a \<and> mutations (trace w') = planned a (yields (trace w'))
         \<and> reported (trace w') = [length (yields (trace w'))])"
  proof (cases "accepted a")
    case False
    from main_rejected [OF False run] obtain es where
      r: "res = Some (Exit 2)" and es: "trace w' = trace w @ es" "\<forall>e \<in> set es. \<exists>m. e = Print m"
      by blast
    from es(2) have "yields es = [] \<and> mutations es = []"
      by (induction es) auto
    with es(1) start have "mutations (trace w') = take 0 (planned a (yields (trace w')))" by simp
    then have "in_progress a w'" unfolding in_progress_def by blast
    with r show ?thesis by simp
  next
    case True
    from main_accepted [OF True run] obtain r w1 where
      tb: "try_block fuel ev svc a
       (emit (Print (MsgBatch (batch_size a) (max_count a) (include_spam_trash a)))
         (emit (Print (MsgMode (mode a) (dry_run a)))
           (emit (Print (MsgTarget (if all_flag a then None else query a))) w))) = (r, w1)"
      and res: "res = (case r of None \<Rightarrow> None | Some (Ok u) \<Rightarrow> Some Completed
                 | Some (Raise (HttpError d)) \<Rightarrow> Some (Exit 1)
                 | Some (Raise KeyboardInterrupt) \<Rightarrow> Some (Exit 130)
                 | Some (Raise (SystemExit n)) \<Rightarrow> Some (Exit n)
                 | Some (Raise e) \<Rightarrow> Some (Uncaught e))"
      and w': "w' = w1 \<or> (\<exists>m. w' = emit (Print m) w1)"
      by blast
    have ip: "in_progress a w1"
      by (rule try_block_trace(1) [OF True _ _ _ tb]) (simp_all add: start)
    have ip': "in_progress a w'" using w' ip in_progress_print by blast
    have "mutations (trace w') = planned a (yields (trace w'))
         \<and> reported (trace w') = [length (yields (trace w'))]" if c: "res = Some Completed"
    proof -
      from c res have r: "r = Some (Ok ())"
        by (auto split: option.splits result.splits exn.splits)
      with run tb True have "w' = w1" by (auto simp: accepted_def main_def)
      moreover have "mutations (trace w1) = planned a (yields (trace w1))
         \<and> reported (trace w1) = [length (yields (trace w1))]"
        by (rule try_block_trace(2) [OF True _ _ _ tb r]) (simp_all add: start)
      ultimately show ?thesis by simp
    qed
    with ip' True show ?thesis by blast
  qed
  then show "in_progress a w'"
    and "res = Some Completed \<Longrightarrow>
           accepted a \<and> mutations (trace w') = planned a (yields (trace w'))
         \<and> reported (trace w') = [length (yields (trace w'))]"
    by blast+
qed

lemma run_trace:
  assumes "run fuel ev svc a r = (res, w')"
  shows "in_progress a w'"
    and "res = Some Completed \<Longrightarrow>
           accepted a \<and> mutations (trace w') = planned a (yields (trace w'))
         \<and> reported (trace w') = [length (yields (trace w'))]"
  using main_trace [of "\<lparr>remote = r, trace = []\<rparr>" fuel ev svc a res w'] assms
  by (simp_all add: run_def)

text \<open>The Batcher's groups of each flushed buffer, for an accepted batch size.\<close>

lemma chunks_plan:
  assumes "1 \<le> B"
  shows "map (\<lambda>buffered. chunks buffered B) (slices ys 5000 0)
         = map Inr (map (\<lambda>buffered. slices buffered (nat B) 0) (slices ys 5000 0))"
  using assms by (simp add: chunks_def)

lemma concat_concat_map:
  "(\<And>x. concat (f x) = x) \<Longrightarrow> concat (concat (map f xs)) = concat xs"
  by (induction xs) simp_all

lemma concat_plan:
  assumes B: "0 < B"
  shows "concat (plan B ys) = ys"
proof -
  have "concat (plan B ys) = concat (slices ys 5000 0)"
    unfolding plan_def using slices_concat [OF B, of _ 0] by (intro concat_concat_map) simp
  also have "\<dots> = ys" using slices_concat [of 5000 ys 0] by simp
  finally show ?thesis .
qed

lemma plan_member:
  assumes "g \<in> set (plan B ys)"
  shows "g \<noteq> [] \<and> length g \<le> B"
  using assms slices_member unfolding plan_def by fastforce

section \<open>Dry runs, live runs and their batches\<close>

lemma example_live_run:
  "run 3 token_only (paged_service two_pages) example_args () =
  (Some Completed,
   \<lparr>remote = (),
    trace =
      [Print (MsgTarget (Some ''older_than:1y'')), Print (MsgMode ''trash'' False),
       Print (MsgBatch 2 0 False),
       ListCall ''me'' (Some ''older_than:1y'') False None 500,
       ListReply (ListResponse (Some [Message (Some ''a''), Message (Some ''b'')]) (Some ''t'')),
       Yield ''a'', Yield ''b'',
       ListCall ''me'' (Some ''older_than:1y'') False (Some ''t'') 500,
       ListReply (ListResponse (Some [Message (Some ''c'')]) None),
       Yield ''c'',
       BatchModify ''me'' [''a'', ''b''] [''TRASH''] [], Sleep 250,
       BatchModify ''me'' [''c''] [''TRASH''] [], Sleep 250,
       Print (MsgDone 3), Print MsgTrashNote]\<rparr>)"
  by (simp add: run_def main_def example_args_def try_block_def get_service_def token_only_def
     list_message_ids_def paged_service_def two_pages_def call_list_def emit_def loop_body_def
     flush_def chunks_def slices.simps sleep_def process_batch_def call_batchModify_def
     eval_nat_numeral)

lemma example_dry_run:
  "run 3 token_only (paged_service two_pages) (example_args\<lparr>dry_run := True\<rparr>) () =
  (Some Completed,
   \<lparr>remote = (),
    trace =
      [Print (MsgTarget (Some ''older_than:1y'')), Print (MsgMode ''trash'' True),
       Print (MsgBatch 2 0 False),
       ListCall ''me'' (Some ''older_than:1y'') False None 500,
       ListReply (ListResponse (Some [Message (Some ''a''), Message (Some ''b'')]) (Some ''t'')),
       Yield ''a'', Yield ''b'',
       ListCall ''me'' (Some ''older_than:1y'') False (Some ''t'') 500,
       ListReply (ListResponse (Some [Message (Some ''c'')]) None),
       Yield ''c'',
       Print (MsgDryRun 3), Print (MsgDone 3), Print MsgTrashNote]\<rparr>)"
  by (simp add: run_def main_def example_args_def try_block_def get_service_def token_only_def
     list_message_ids_def paged_service_def two_pages_def call_list_def emit_def loop_body_def
     flush_def eval_nat_numeral)

lemma run_rejected:
  assumes "\<not> accepted a" and "run fuel ev svc a r = (res, w')"
  shows "yields (trace w') = []" "batches (trace w') = []"
proof -
  from main_rejected(2) [OF assms(1) assms(2) [unfolded run_def]]
  obtain es where es: "trace w' = es" "\<forall>e \<in> set es. \<exists>m. e = Print m" by auto
  from es(2) have "yields es = [] \<and> batches es = []" by (induction es) auto
  with es(1) show "yields (trace w') = []" "batches (trace w') = []" by simp_all
qed

text \<open>
  Claim C1. In every run with the dry-run flag set, whatever the remote answers and
  however the run ends, no event of the trace is a mutating request. In every live run the
  mutating requests are, in order, one request for each group that the Batcher makes of
  each flushed buffer (the identifiers yielded, cut at every 5000): an initial part of
  them when the run stops early, all of them when it completes.
\<close>

theorem dry_run_never_mutates_live_once_per_batch:
  assumes "run fuel ev svc a r = (res, w')"
  shows "(dry_run a \<longrightarrow> (\<forall>e \<in> set (trace w'). \<not> is_mutation e))
       \<and> (\<not> dry_run a \<longrightarrow>
            (\<exists>gss n. map (\<lambda>buffered. chunks buffered (batch_size a))
                         (slices (yields (trace w')) 5000 0) = map Inr gss
               \<and> mutations (trace w') = take n (map (mutation_call (mode a)) (concat gss))
               \<and> (res = Some Completed \<longrightarrow>
                    mutations (trace w') = map (mutation_call (mode a)) (concat gss))))"
proof (intro conjI impI)
  assume dry: "dry_run a"
  from run_trace(1) [OF assms] obtain n where
    "mutations (trace w') = take n (planned a (yields (trace w')))"
    unfolding in_progress_def by blast
  with dry have "filter is_mutation (trace w') = []" by (simp add: planned_def mutations_def)
  then show "\<forall>e \<in> set (trace w'). \<not> is_mutation e" by (simp add: filter_empty_conv)
next
  assume live: "\<not> dry_run a"
  from run_trace(1) [OF assms] obtain n where
    n: "mutations (trace w') = take n (planned a (yields (trace w')))"
    unfolding in_progress_def by blast
  define gss where "gss = map (\<lambda>buffered. slices buffered (nat (batch_size a)) 0)
                            (slices (yields (trace w')) 5000 0)"
  have pl: "planned a (yields (trace w')) = map (mutation_call (mode a)) (concat gss)"
    using live by (simp add: planned_def plan_def gss_def)
  have ch: "map (\<lambda>buffered. chunks buffered (batch_size a))
              (slices (yields (trace w')) 5000 0) = map Inr gss"
  proof (cases "accepted a")
    case True
    then have "1 \<le> batch_size a" by (simp add: accepted_def)
    then show ?thesis unfolding gss_def by (rule chunks_plan)
  next
    case False
    from run_rejected(1) [OF False assms] show ?thesis by (simp add: gss_def slices_Nil)
  qed
  have "res = Some Completed \<longrightarrow> mutations (trace w') = map (mutation_call (mode a)) (concat gss)"
    using run_trace(2) [OF assms] pl by simp
  with ch n pl show "\<exists>gss n. map (\<lambda>buffered. chunks buffered (batch_size a))
                         (slices (yields (trace w')) 5000 0) = map Inr gss
               \<and> mutations (trace w') = take n (map (mutation_call (mode a)) (concat gss))
               \<and> (res = Some Completed \<longrightarrow>
                    mutations (trace w') = map (mutation_call (mode a)) (concat gss))"
    by auto
qed

theorem dry_run_never_mutates_live_once_per_batch_witness:
  "list_all (\<lambda>e. \<not> is_mutation e)
     (trace (snd (run 3 token_only (paged_service two_pages) (example_args\<lparr>dry_run := True\<rparr>) ())))
   \<and> (\<exists>gss. map (\<lambda>buffered. chunks buffered 2) (slices [''a'', ''b'', ''c''] 5000 0) = map Inr gss
         \<and> mutations (trace (snd (run 3 token_only (paged_service two_pages) example_args ())))
           = map (mutation_call ''trash'') (concat gss))"
proof -
  have "list_all (\<lambda>e. \<not> is_mutation e)
     (trace (snd (run 3 token_only (paged_service two_pages) (example_args\<lparr>dry_run := True\<rparr>) ())))"
    using dry_run_never_mutates_live_once_per_batch [OF example_dry_run]
    unfolding example_dry_run by (simp add: example_args_def list_all_iff)
  moreover have "\<exists>gss. map (\<lambda>buffered. chunks buffered 2) (slices [''a'', ''b'', ''c''] 5000 0) = map Inr gss
         \<and> mutations (trace (snd (run 3 token_only (paged_service two_pages) example_args ())))
           = map (mutation_call ''trash'') (concat gss)"
  proof -
    from dry_run_never_mutates_live_once_per_batch [OF example_live_run]
    obtain gss where
      "map (\<lambda>buffered. chunks buffered 2) (slices [''a'', ''b'', ''c''] 5000 0) = map Inr gss"
      "mutations (trace (snd (run 3 token_only (paged_service two_pages) example_args ())))
           = map (mutation_call ''trash'') (concat gss)"
      unfolding example_live_run by (auto simp: example_args_def)
    then show ?thesis by (intro exI [of _ gss]) simp
  qed
  ultimately show ?thesis by blast
qed

text \<open>
  Claim C3. In every live run that completes, the batches handed to the mutating
  requests, concatenated in order, are exactly the identifiers the lister yielded, in the
  order it yielded them (so each is mutated once, the last buffer included), and the
  one total the run reports is the number of identifiers yielded.
\<close>

theorem completed_live_run_mutates_what_was_listed:
  assumes "run fuel ev svc a r = (Some Completed, w')" and "\<not> dry_run a"
  shows "concat (batches (trace w')) = yields (trace w')
       \<and> reported (trace w') = [length (yields (trace w'))]"
proof -
  from run_trace(2) [OF assms(1)] have acc: "accepted a"
    and m: "mutations (trace w') = planned a (yields (trace w'))"
    and rep: "reported (trace w') = [length (yields (trace w'))]"
    by simp_all
  from acc have B: "0 < nat (batch_size a)" by (simp add: accepted_def)
  have "batches (trace w') = batches (mutations (trace w'))" by (simp add: batches_mutations)
  also have "\<dots> = plan (nat (batch_size a)) (yields (trace w'))"
    using m assms(2) by (simp add: planned_def)
  finally have "concat (batches (trace w')) = yields (trace w')"
    using concat_plan [OF B] by simp
  with rep show ?thesis by simp
qed

theorem completed_live_run_mutates_what_was_listed_witness:
  "\<not> dry_run example_args
   \<and> fst (run 3 token_only (paged_service two_pages) example_args ()) = Some Completed
   \<and> concat (batches (trace (snd (run 3 token_only (paged_service two_pages) example_args ()))))
       = [''a'', ''b'', ''c'']
   \<and> reported (trace (snd (run 3 token_only (paged_service two_pages) example_args ()))) = [3]"
proof -
  have d: "\<not> dry_run example_args" by (simp add: example_args_def)
  from completed_live_run_mutates_what_was_listed [OF example_live_run d] d
  show ?thesis unfolding example_live_run by simp
qed

text \<open>
  Claim C10. In every run, whatever its arguments and however it ends, every batch handed
  to a mutating request is non-empty and no longer than the batch size, hence no longer
  than 1000 (a run whose batch size is outside 1..1000 sends no request at all).
\<close>

theorem every_batch_nonempty_and_within_size:
  assumes "run fuel ev svc a r = (res, w')"
  shows "\<forall>ids \<in> set (batches (trace w')).
           ids \<noteq> [] \<and> int (length ids) \<le> batch_size a \<and> length ids \<le> 1000"
proof (cases "accepted a")
  case False
  from run_rejected(2) [OF False assms] show ?thesis by simp
next
  case True
  then have B: "1 \<le> batch_size a" "batch_size a \<le> 1000" by (simp_all add: accepted_def)
  from run_trace(1) [OF assms] obtain n where
    n: "mutations (trace w') = take n (planned a (yields (trace w')))"
    unfolding in_progress_def by blast
  have "batches (trace w') = batches (mutations (trace w'))" by (simp add: batches_mutations)
  also have "\<dots> = batches (take n (planned a (yields (trace w'))))" by (simp add: n)
  finally have b: "set (batches (trace w')) \<subseteq> set (plan (nat (batch_size a)) (yields (trace w')))"
    by (auto simp: planned_def take_map dest: in_set_takeD)
  show ?thesis
  proof
    fix ids assume "ids \<in> set (batches (trace w'))"
    with b have "ids \<in> set (plan (nat (batch_size a)) (yields (trace w')))" by blast
    from plan_member [OF this] have "ids \<noteq> []" "length ids \<le> nat (batch_size a)" by simp_all
    with B show "ids \<noteq> [] \<and> int (length ids) \<le> batch_size a \<and> length ids \<le> 1000" by auto
  qed
qed

theorem every_batch_nonempty_and_within_size_witness:
  "batches (trace (snd (run 3 token_only (paged_service two_pages) example_args ())))
     = [[''a'', ''b''], [''c'']]
   \<and> list_all (\<lambda>ids. ids \<noteq> [] \<and> int (length ids) \<le> batch_size example_args \<and> length ids \<le> 1000)
       (batches (trace (snd (run 3 token_only (paged_service two_pages) example_args ()))))"
proof -
  have "batches (trace (snd (run 3 token_only (paged_service two_pages) example_args ())))
     = [[''a'', ''b''], [''c'']]"
    unfolding example_live_run by simp
  moreover have "list_all (\<lambda>ids. ids \<noteq> [] \<and> int (length ids) \<le> batch_size example_args \<and> length ids \<le> 1000)
       (batches (trace (snd (run 3 token_only (paged_service two_pages) example_args ()))))"
    using every_batch_nonempty_and_within_size [OF example_live_run]
    unfolding example_live_run list_all_iff by simp
  ultimately show ?thesis by blast
qed

section \<open>Exceptions and exit codes\<close>

text \<open>Which exceptions can come out of each operation: \<open>Q\<close> is any property that the
  exceptions of failed collaborator calls have.\<close>

lemma process_batch_raises:
  assumes "process_batch svc ids md w = (Raise e, w')"
  shows "(\<exists>f. e = raised f) \<or> (\<exists>m. e = ValueError m)"
proof -
  obtain x r1 where x: "messages_batchModify svc (remote w) ''me'' ids [''TRASH''] [] = (x, r1)"
    by (cases "messages_batchModify svc (remote w) ''me'' ids [''TRASH''] []")
  obtain y r2 where y: "messages_batchDelete svc (remote w) ''me'' ids = (y, r2)"
    by (cases "messages_batchDelete svc (remote w) ''me'' ids")
  from assms x y show ?thesis
    by (cases x; cases y)
       (auto simp: process_batch_def call_batchModify_def call_batchDelete_def split: if_splits)
qed

lemma sleep_raises:
  assumes "sleep svc ms w = (Raise e, w')"
  shows "(\<exists>f. e = raised f) \<or> (\<exists>m. e = ValueError m)"
proof -
  obtain x r' where x: "pause svc (remote w) ms = (x, r')"
    by (cases "pause svc (remote w) ms")
  from assms x have "(\<exists>m. e = ValueError m) \<or> e = OtherError ''OverflowError''
      \<or> e = KeyboardInterrupt"
    by (cases x) (auto simp: sleep_def split: if_splits)
  moreover have "raised (OtherFailure ''OverflowError'') = OtherError ''OverflowError''"
    "raised Interrupted = KeyboardInterrupt" by simp_all
  ultimately show ?thesis by metis
qed

lemma process_groups_raises:
  assumes "process_groups svc md ms gs w = (Raise e, w')"
  shows "(\<exists>f. e = raised f) \<or> (\<exists>m. e = ValueError m)"
  using assms
proof (induction gs arbitrary: w)
  case Nil
  then show ?case by simp
next
  case (Cons g gs)
  obtain r1 w1 where pb: "process_batch svc g md w = (r1, w1)"
    by (cases "process_batch svc g md w")
  obtain r2 w2 where sl: "sleep svc ms w1 = (r2, w2)" by (cases "sleep svc ms w1")
  show ?case
  proof (cases r1)
    case (Raise e1)
    with Cons.prems pb have "e = e1" by simp
    with pb Raise process_batch_raises show ?thesis by blast
  next
    case (Ok u)
    show ?thesis
    proof (cases r2)
      case (Raise e2)
      with Cons.prems pb Ok sl have "e = e2" by simp
      with sl Raise have "sleep svc ms w1 = (Raise e, w2)" by simp
      then show ?thesis by (rule sleep_raises)
    next
      case ok2: (Ok u')
      with Cons.prems pb Ok sl have "process_groups svc md ms gs w2 = (Raise e, w')" by simp
      then show ?thesis by (rule Cons.IH)
    qed
  qed
qed

lemma flush_raises:
  assumes "flush svc a buffered w = (Raise e, w')"
  shows "(\<exists>f. e = raised f) \<or> (\<exists>m. e = ValueError m)"
proof (cases "chunks buffered (batch_size a)")
  case (Inl e1)
  with assms show ?thesis by (auto simp: flush_def chunks_def split: if_splits)
next
  case (Inr gs)
  with assms have "process_groups svc (mode a) (sleep_ms a) gs w = (Raise e, w')"
    by (auto simp: flush_def split: if_splits)
  then show ?thesis by (rule process_groups_raises)
qed

lemma loop_body_raises:
  assumes "loop_body svc a i c w = (Raise e, w')"
  shows "(\<exists>f. e = raised f) \<or> (\<exists>m. e = ValueError m)"
proof -
  obtain r1 w1 where f: "flush svc a (fst c @ [i]) w = (r1, w1)"
    by (cases "flush svc a (fst c @ [i]) w")
  with assms have "r1 = Raise e"
    by (cases r1) (auto simp: loop_body_def Let_def split: if_splits)
  with f flush_raises show ?thesis by blast
qed

lemma call_list_raises:
  assumes "call_list svc q ist tok w = (Raise e, w')"
  shows "\<exists>f. e = raised f"
proof -
  obtain x r' where x: "messages_list svc (remote w) ''me'' q ist tok 500 = (x, r')"
    by (cases "messages_list svc (remote w) ''me'' q ist tok 500")
  with assms show ?thesis by (cases x) (auto simp: call_list_def)
qed

lemma scan_page_raises:
  assumes body: "\<And>i c w e w'. body i c w = (Raise e, w') \<Longrightarrow> Q e"
    and run: "scan_page mx body ms tot c w = (Raise e, w')"
  shows "Q e"
  using run
proof (induction ms arbitrary: tot c w)
  case Nil
  then show ?case by simp
next
  case (Cons m ms)
  show ?case
  proof (cases "mx \<noteq> 0 \<and> mx \<le> int tot")
    case True
    from Cons.prems scan_page_cap [OF True, of body m ms c w] show ?thesis by simp
  next
    case cap: False
    show ?thesis
    proof (cases "truthy (msg_id m)")
      case False
      from Cons.prems scan_page_skip [OF cap False, of body ms c w]
      have "scan_page mx body ms tot c w = (Raise e, w')" by simp
      then show ?thesis by (rule Cons.IH)
    next
      case True
      note step = scan_page_yield [OF cap True, of body ms c w]
      obtain r1 w1 where b: "body (the (msg_id m)) c (emit (Yield (the (msg_id m))) w) = (r1, w1)"
        by (cases "body (the (msg_id m)) c (emit (Yield (the (msg_id m))) w)")
      show ?thesis
      proof (cases r1)
        case (Raise e1)
        with b Cons.prems have "e = e1" unfolding step by simp
        with b Raise body show ?thesis by blast
      next
        case (Ok c1)
        with b Cons.prems have "scan_page mx body ms (Suc tot) c1 w1 = (Raise e, w')"
          unfolding step by simp
        then show ?thesis by (rule Cons.IH)
      qed
    qed
  qed
qed

lemma page_loop_raises:
  assumes body: "\<And>i c w e w'. body i c w = (Raise e, w') \<Longrightarrow> Q e"
    and coll: "\<And>f. Q (raised f)"
    and run: "page_loop fuel svc q ist mx body tok tot c w = (Some (Raise e), w')"
  shows "Q e"
  using run
proof (induction fuel arbitrary: tok tot c w)
  case 0
  then show ?case by simp
next
  case (Suc fuel)
  obtain r1 w1 where cl: "call_list svc q ist tok w = (r1, w1)"
    by (cases "call_list svc q ist tok w")
  show ?case
  proof (cases r1)
    case (Raise e1)
    with cl Suc.prems have "e = e1" by simp
    with cl Raise call_list_raises coll show ?thesis by blast
  next
    case (Ok resp)
    obtain r2 w2 where sp:
      "scan_page mx body (case messages resp of None \<Rightarrow> [] | Some ms \<Rightarrow> ms) tot c w1 = (r2, w2)"
      by (cases "scan_page mx body (case messages resp of None \<Rightarrow> [] | Some ms \<Rightarrow> ms) tot c w1")
    show ?thesis
    proof (cases r2)
      case (Raise e2)
      with cl Ok sp Suc.prems have "e = e2" by simp
      moreover have "Q e2"
        by (rule scan_page_raises [where Q = Q, OF body sp [unfolded Raise]])
      ultimately show ?thesis by simp
    next
      case r2: (Ok pe)
      show ?thesis
      proof (cases pe)
        case (Returned c2)
        with cl Ok sp r2 Suc.prems show ?thesis by simp
      next
        case (Exhausted tot2 c2)
        with cl Ok sp r2 Suc.prems
        have "page_loop fuel svc q ist mx body (nextPageToken resp) tot2 c2 w2 = (Some (Raise e), w')"
          by (simp split: if_splits)
        then show ?thesis by (rule Suc.IH)
      qed
    qed
  qed
qed

lemma try_block_raises:
  assumes "try_block fuel ev svc a w = (Some (Raise e), w')"
  shows "(\<exists>f. e = raised f) \<or> (\<exists>m. e = ValueError m) \<or> e = SystemExit 1"
proof -
  obtain r1 w1 where gs: "get_service ev w = (r1, w1)" by (cases "get_service ev w")
  show ?thesis
  proof (cases r1)
    case (Raise e1)
    with gs assms have "e = e1" by (simp add: try_block_def)
    with gs Raise show ?thesis
      by (auto simp: get_service_def split: if_splits option.splits)
  next
    case (Ok u)
    obtain r2 w2 where pl: "page_loop fuel svc (if all_flag a then None else query a)
        (include_spam_trash a) (max_count a) (loop_body svc a) None 0 ([], 0) w1 = (r2, w2)"
      by (cases "page_loop fuel svc (if all_flag a then None else query a)
        (include_spam_trash a) (max_count a) (loop_body svc a) None 0 ([], 0) w1")
    show ?thesis
    proof (cases r2)
      case None
      with gs Ok pl assms show ?thesis by (simp add: try_block_def list_message_ids_def)
    next
      case (Some r)
      show ?thesis
      proof (cases r)
        case (Raise e2)
        with gs Ok pl Some assms have "e = e2" by (simp add: try_block_def list_message_ids_def)
        moreover have "(\<exists>f. e2 = raised f) \<or> (\<exists>m. e2 = ValueError m)"
          by (rule page_loop_raises [where Q = "\<lambda>e. (\<exists>f. e = raised f) \<or> (\<exists>m. e = ValueError m)",
                OF _ _ pl [unfolded Some Raise]]) (use loop_body_raises in blast)+
        ultimately show ?thesis by blast
      next
        case ok: (Ok c)
        obtain buffered tot where c: "c = (buffered, tot)" by (cases c)
        obtain r3 w3 where f: "(if buffered \<noteq> [] then flush svc a buffered w2 else (Ok (), w2)) = (r3, w3)"
          by (cases "if buffered \<noteq> [] then flush svc a buffered w2 else (Ok (), w2)")
        with gs Ok pl Some ok c assms have "r3 = Raise e"
          by (cases r3) (simp_all add: try_block_def list_message_ids_def)
        with f have "flush svc a buffered w2 = (Raise e, w3)" by (auto split: if_splits)
        from flush_raises [OF this] show ?thesis by blast
      qed
    qed
  qed
qed

lemma raised_not_exit [simp]: "raised f \<noteq> SystemExit n" "SystemExit n \<noteq> raised f"
  by (cases f; simp)+

text \<open>Exit code 2 comes from nowhere but the argument checks.\<close>

lemma main_exit_2:
  assumes "main fuel ev svc a w = (Some (Exit 2), w')"
  shows "\<not> accepted a"
proof
  assume acc: "accepted a"
  from main_accepted [OF acc assms] obtain r w1 where
    tb: "try_block fuel ev svc a
       (emit (Print (MsgBatch (batch_size a) (max_count a) (include_spam_trash a)))
         (emit (Print (MsgMode (mode a) (dry_run a)))
           (emit (Print (MsgTarget (if all_flag a then None else query a))) w))) = (r, w1)"
    and res: "Some (Exit 2) = (case r of None \<Rightarrow> None | Some (Ok u) \<Rightarrow> Some Completed
                 | Some (Raise (HttpError d)) \<Rightarrow> Some (Exit 1)
                 | Some (Raise KeyboardInterrupt) \<Rightarrow> Some (Exit 130)
                 | Some (Raise (SystemExit n)) \<Rightarrow> Some (Exit n)
                 | Some (Raise e) \<Rightarrow> Some (Uncaught e))"
    by blast
  from res have "r = Some (Raise (SystemExit 2))"
    by (auto split: option.splits result.splits exn.splits)
  with tb have "(\<exists>f. SystemExit 2 = raised f) \<or> (\<exists>m. SystemExit 2 = ValueError m)
      \<or> SystemExit 2 = SystemExit 1"
    by (intro try_block_raises) simp
  then show False by simp
qed

section \<open>The filter under \<open>--all\<close>\<close>

lemma flush_query: "flush svc (a\<lparr>query := q'\<rparr>) = flush svc a"
  by (intro ext) (simp add: flush_def split: sum.splits)

lemma loop_body_query: "loop_body svc (a\<lparr>query := q'\<rparr>) = loop_body svc a"
  by (intro ext) (unfold loop_body_def flush_query, rule refl)

lemma try_block_query:
  assumes "all_flag a"
  shows "try_block fuel ev svc (a\<lparr>query := q'\<rparr>) w = try_block fuel ev svc a w"
proof -
  have sel: "all_flag (a\<lparr>query := q'\<rparr>) = True" "all_flag a = True"
    "include_spam_trash (a\<lparr>query := q'\<rparr>) = include_spam_trash a"
    "max_count (a\<lparr>query := q'\<rparr>) = max_count a"
    "mode (a\<lparr>query := q'\<rparr>) = mode a"
    using assms by simp_all
  show ?thesis
    unfolding try_block_def loop_body_query flush_query by (simp only: sel if_True)
qed

lemma main_query:
  assumes "all_flag a"
  shows "main fuel ev svc (a\<lparr>query := q'\<rparr>) w = main fuel ev svc a w"
proof -
  have sel: "all_flag (a\<lparr>query := q'\<rparr>) = True" "all_flag a = True"
    "include_spam_trash (a\<lparr>query := q'\<rparr>) = include_spam_trash a"
    "max_count (a\<lparr>query := q'\<rparr>) = max_count a"
    "mode (a\<lparr>query := q'\<rparr>) = mode a"
    "batch_size (a\<lparr>query := q'\<rparr>) = batch_size a"
    "dry_run (a\<lparr>query := q'\<rparr>) = dry_run a"
    using assms by simp_all
  show ?thesis
    unfolding main_def try_block_query [OF assms] by (simp only: sel if_True not_True_eq_False simp_thms)
qed

text \<open>Every list request of the driver carries the same user, filter, scope and page size.\<close>

lemma page_loop_requests:
  assumes body: "\<And>i c w. requests (trace (snd (body i c w))) = requests (trace w)"
    and start: "\<forall>e \<in> set (requests (trace w)). \<exists>tok. e = ListCall ''me'' q ist tok 500"
    and run: "page_loop fuel svc q ist mx body tok tot c w = (res, w')"
  shows "\<forall>e \<in> set (requests (trace w')). \<exists>tok. e = ListCall ''me'' q ist tok 500"
proof -
  define P :: "'b world \<Rightarrow> bool" where
    "P = (\<lambda>w. \<forall>e \<in> set (requests (trace w)). \<exists>tok. e = ListCall ''me'' q ist tok 500)"
  have keep: "P w2" if "P w1" "body i c1 (emit (Yield i) w1) = (r, w2)" for i c1 w1 r w2
    using that(1) body [of i c1 "emit (Yield i) w1"] that(2) by (simp add: P_def)
  have lst: "P w2" if "P w1" "call_list svc q ist tok1 w1 = (r, w2)" for tok1 w1 r w2
    using that(1) call_list_trace [OF that(2)] by (cases r) (auto simp: P_def)
  have "case res of Some (Ok c') \<Rightarrow> (\<exists>tot'::nat. P w') | _ \<Rightarrow> P w'"
  proof (rule page_loop_rule [where S = "\<lambda>tot c w. P w" and F = P, OF _ _ _ _ _ _ run])
    show "P w" using start by (simp add: P_def)
    show "\<And>w i c c' w'. P w \<Longrightarrow> body i c (emit (Yield i) w) = (Ok c', w') \<Longrightarrow> P w'"
      by (rule keep)
    show "\<And>w i c e w'. P w \<Longrightarrow> body i c (emit (Yield i) w) = (Raise e, w') \<Longrightarrow> P w'"
      by (rule keep)
    show "\<And>w tok resp w'. P w \<Longrightarrow> call_list svc q ist tok w = (Ok resp, w') \<Longrightarrow> P w'"
      by (rule lst)
    show "\<And>w tok e w'. P w \<Longrightarrow> call_list svc q ist tok w = (Raise e, w') \<Longrightarrow> P w'"
      by (rule lst)
    show "\<And>w. P w \<Longrightarrow> P w" .
  qed
  then have "P w'" by (auto split: option.splits result.splits)
  then show ?thesis by (simp add: P_def)
qed

lemma try_block_requests:
  assumes acc: "accepted a" and start: "requests (trace w) = []"
    and run: "try_block fuel ev svc a w = (res, w')"
  shows "\<forall>e \<in> set (requests (trace w')).
           \<exists>tok. e = ListCall ''me'' (if all_flag a then None else query a) (include_spam_trash a) tok 500"
proof -
  let ?P = "\<lambda>w. \<forall>e \<in> set (requests (trace w)).
           \<exists>tok. e = ListCall ''me'' (if all_flag a then None else query a) (include_spam_trash a) tok 500"
  obtain r1 w1 where gs: "get_service ev w = (r1, w1)" by (cases "get_service ev w")
  have P1: "?P w1" using get_service_views(4) [OF gs] start by simp
  show ?thesis
  proof (cases r1)
    case (Raise e)
    with gs run have "w' = w1" by (simp add: try_block_def)
    with P1 show ?thesis by simp
  next
    case (Ok u)
    obtain r2 w2 where pl: "page_loop fuel svc (if all_flag a then None else query a)
        (include_spam_trash a) (max_count a) (loop_body svc a) None 0 ([], 0) w1 = (r2, w2)"
      by (cases "page_loop fuel svc (if all_flag a then None else query a)
        (include_spam_trash a) (max_count a) (loop_body svc a) None 0 ([], 0) w1")
    have P2: "?P w2"
    proof (rule page_loop_requests [OF _ P1 pl])
      fix i c w
      show "requests (trace (snd (loop_body svc a i c w))) = requests (trace w)"
        using loop_body_views(3) [OF acc, of svc i c w] by (cases "loop_body svc a i c w") simp
    qed
    show ?thesis
    proof (cases r2)
      case None
      with gs Ok pl run have "w' = w2" by (simp add: try_block_def list_message_ids_def)
      with P2 show ?thesis by simp
    next
      case (Some r)
      show ?thesis
      proof (cases r)
        case (Raise e)
        with gs Ok pl Some run have "w' = w2" by (simp add: try_block_def list_message_ids_def)
        with P2 show ?thesis by simp
      next
        case ok: (Ok c)
        obtain buffered tot where c: "c = (buffered, tot)" by (cases c)
        obtain r3 w3 where f: "(if buffered \<noteq> [] then flush svc a buffered w2 else (Ok (), w2)) = (r3, w3)"
          by (cases "if buffered \<noteq> [] then flush svc a buffered w2 else (Ok (), w2)")
        have "requests (trace w3) = requests (trace w2)"
        proof (cases "buffered = []")
          case True
          with f show ?thesis by simp
        next
          case False
          with f have "flush svc a buffered w2 = (r3, w3)" by simp
          from flush_trace [OF acc this] show ?thesis by blast
        qed
        moreover from gs Ok pl Some ok c f run have "requests (trace w') = requests (trace w3)"
          by (cases r3) (auto simp: try_block_def list_message_ids_def)
        ultimately show ?thesis using P2 by simp
      qed
    qed
  qed
qed

lemma run_requests:
  assumes "run fuel ev svc a r = (res, w')"
  shows "\<forall>e \<in> set (requests (trace w')).
           \<exists>tok. e = ListCall ''me'' (if all_flag a then None else query a) (include_spam_trash a) tok 500"
proof (cases "accepted a")
  case False
  from main_rejected(2) [OF False assms [unfolded run_def]]
  obtain es where es: "trace w' = es" "\<forall>e \<in> set es. \<exists>m. e = Print m" by auto
  from es(2) have "requests es = []" by (induction es) auto
  with es(1) show ?thesis by simp
next
  case True
  from main_accepted [OF True assms [unfolded run_def]] obtain r1 w1 where
    tb: "try_block fuel ev svc a
       (emit (Print (MsgBatch (batch_size a) (max_count a) (include_spam_trash a)))
         (emit (Print (MsgMode (mode a) (dry_run a)))
           (emit (Print (MsgTarget (if all_flag a then None else query a)))
              \<lparr>remote = r, trace = []\<rparr>))) = (r1, w1)"
    and w': "w' = w1 \<or> (\<exists>m. w' = emit (Print m) w1)"
    by blast
  have "\<forall>e \<in> set (requests (trace w1)).
           \<exists>tok. e = ListCall ''me'' (if all_flag a then None else query a) (include_spam_trash a) tok 500"
    by (rule try_block_requests [OF True _ tb]) simp
  with w' show ?thesis by auto
qed

text \<open>
  Claim C9. When \<open>--all\<close> is set, the supplied filter has no effect on the run: replacing
  it by any other filter, or by none, gives the same outcome and the same trace; every
  list request of the run carries no filter (\<open>q = None\<close>); and the run does not end with
  exit code 2 unless the mode or the batch size is rejected, so no error is raised for the
  combination of \<open>--all\<close> with \<open>--query\<close>.
\<close>

theorem all_flag_ignores_query:
  assumes "all_flag a" and "run fuel ev svc a r = (res, w')"
  shows "run fuel ev svc (a\<lparr>query := q'\<rparr>) r = (res, w')
       \<and> (\<forall>e \<in> set (requests (trace w')).
             \<exists>tok. e = ListCall ''me'' None (include_spam_trash a) tok 500)
       \<and> (res = Some (Exit 2) \<longrightarrow>
             \<not> ((mode a = ''trash'' \<or> mode a = ''delete'')
                \<and> 1 \<le> batch_size a \<and> batch_size a \<le> 1000))"
proof (intro conjI impI)
  show "run fuel ev svc (a\<lparr>query := q'\<rparr>) r = (res, w')"
    using assms by (simp add: run_def main_query)
  show "\<forall>e \<in> set (requests (trace w')). \<exists>tok. e = ListCall ''me'' None (include_spam_trash a) tok 500"
    using run_requests [OF assms(2)] assms(1) by simp
next
  assume "res = Some (Exit 2)"
  with assms(2) have "main fuel ev svc a \<lparr>remote = r, trace = []\<rparr> = (Some (Exit 2), w')"
    by (simp add: run_def)
  then have "\<not> accepted a" by (rule main_exit_2)
  with assms(1) show "\<not> ((mode a = ''trash'' \<or> mode a = ''delete'')
                \<and> 1 \<le> batch_size a \<and> batch_size a \<le> 1000)"
    by (simp add: accepted_def)
qed

lemma example_all_run:
  "run 3 token_only (paged_service two_pages) (example_args\<lparr>all_flag := True\<rparr>) () =
  (Some Completed,
   \<lparr>remote = (),
    trace =
      [Print (MsgTarget None), Print (MsgMode ''trash'' False),
       Print (MsgBatch 2 0 False),
       ListCall ''me'' None False None 500,
       ListReply (ListResponse (Some [Message (Some ''a''), Message (Some ''b'')]) (Some ''t'')),
       Yield ''a'', Yield ''b'',
       ListCall ''me'' None False (Some ''t'') 500,
       ListReply (ListResponse (Some [Message (Some ''c'')]) None),
       Yield ''c'',
       BatchModify ''me'' [''a'', ''b''] [''TRASH''] [], Sleep 250,
       BatchModify ''me'' [''c''] [''TRASH''] [], Sleep 250,
       Print (MsgDone 3), Print MsgTrashNote]\<rparr>)"
  by (simp add: run_def main_def example_args_def try_block_def get_service_def token_only_def
     list_message_ids_def paged_service_def two_pages_def call_list_def emit_def loop_body_def
     flush_def chunks_def slices.simps sleep_def process_batch_def call_batchModify_def
     eval_nat_numeral)

theorem all_flag_ignores_query_witness:
  "all_flag (example_args\<lparr>all_flag := True\<rparr>)
   \<and> query (example_args\<lparr>all_flag := True\<rparr>) = Some ''older_than:1y''
   \<and> run 3 token_only (paged_service two_pages) (example_args\<lparr>all_flag := True, query := None\<rparr>) ()
       = run 3 token_only (paged_service two_pages) (example_args\<lparr>all_flag := True\<rparr>) ()
   \<and> requests (trace (snd (run 3 token_only (paged_service two_pages)
                               (example_args\<lparr>all_flag := True\<rparr>) ())))
       = [ListCall ''me'' None False None 500, ListCall ''me'' None False (Some ''t'') 500]
   \<and> fst (run 3 token_only (paged_service two_pages) (example_args\<lparr>all_flag := True\<rparr>) ())
       = Some Completed"
proof -
  have h: "all_flag (example_args\<lparr>all_flag := True\<rparr>)" by simp
  have q: "query (example_args\<lparr>all_flag := True\<rparr>) = Some ''older_than:1y''"
    by (simp add: example_args_def)
  from all_flag_ignores_query [OF h example_all_run, of None]
  have "run 3 token_only (paged_service two_pages) (example_args\<lparr>all_flag := True, query := None\<rparr>) ()
       = run 3 token_only (paged_service two_pages) (example_args\<lparr>all_flag := True\<rparr>) ()"
    unfolding example_all_run by simp
  with h q show ?thesis unfolding example_all_run by simp
qed

section \<open>Local configuration errors\<close>

lemma example_no_query_run:
  "run 3 token_only (paged_service two_pages) (example_args\<lparr>query := None\<rparr>) ()
     = (Some (Exit 2), \<lparr>remote = (), trace = [Print MsgProvideAllOrQuery]\<rparr>)"
  by (simp add: run_def main_def example_args_def emit_def)

lemma example_batch_size_run:
  "run 3 token_only (paged_service two_pages) (example_args\<lparr>batch_size := 1500\<rparr>) ()
     = (Some (Exit 2), \<lparr>remote = (), trace = [Print MsgBatchSizeRange]\<rparr>)"
  by (simp add: run_def main_def example_args_def emit_def)

lemma example_no_files_run:
  "run 3 no_files (paged_service two_pages) example_args ()
     = (Some (Exit 1),
        \<lparr>remote = (),
         trace = [Print (MsgTarget (Some ''older_than:1y'')), Print (MsgMode ''trash'' False),
                  Print (MsgBatch 2 0 False), Print MsgMissingCredentials]\<rparr>)"
  by (simp add: run_def main_def example_args_def try_block_def get_service_def no_files_def
      emit_def)

lemma main_no_target:
  assumes "\<not> all_flag a \<and> \<not> truthy (query a)"
  shows "main fuel ev svc a w =
     (if mode a \<noteq> ''trash'' \<and> mode a \<noteq> ''delete'' then (Some (Exit 2), w)
      else (Some (Exit 2), emit (Print MsgProvideAllOrQuery) w))"
  unfolding main_def using assms by simp

lemma main_bad_batch:
  assumes "\<not> (1 \<le> batch_size a \<and> batch_size a \<le> 1000)"
  shows "main fuel ev svc a w =
     (if mode a \<noteq> ''trash'' \<and> mode a \<noteq> ''delete'' then (Some (Exit 2), w)
      else if \<not> all_flag a \<and> \<not> truthy (query a)
        then (Some (Exit 2), emit (Print MsgProvideAllOrQuery) w)
        else (Some (Exit 2), emit (Print MsgBatchSizeRange) w))"
  unfolding main_def using assms by (simp cong: if_cong)

lemma example_refresh_run:
  "run 3 refreshable_token (paged_service two_pages) example_args () =
  (Some Completed,
   \<lparr>remote = (),
    trace =
      [Print (MsgTarget (Some ''older_than:1y'')), Print (MsgMode ''trash'' False),
       Print (MsgBatch 2 0 False),
       AuthRefresh, TokenWrite,
       ListCall ''me'' (Some ''older_than:1y'') False None 500,
       ListReply (ListResponse (Some [Message (Some ''a''), Message (Some ''b'')]) (Some ''t'')),
       Yield ''a'', Yield ''b'',
       ListCall ''me'' (Some ''older_than:1y'') False (Some ''t'') 500,
       ListReply (ListResponse (Some [Message (Some ''c'')]) None),
       Yield ''c'',
       BatchModify ''me'' [''a'', ''b''] [''TRASH''] [], Sleep 250,
       BatchModify ''me'' [''c''] [''TRASH''] [], Sleep 250,
       Print (MsgDone 3), Print MsgTrashNote]\<rparr>)"
  by (simp add: run_def main_def example_args_def try_block_def get_service_def
     refreshable_token_def
     list_message_ids_def paged_service_def two_pages_def call_list_def emit_def loop_body_def
     flush_def chunks_def slices.simps sleep_def process_batch_def call_batchModify_def
     eval_nat_numeral)

text \<open>With a stored token that is valid, or expired and refreshable, \<open>get_service\<close> never
  reads whether \<^verbatim>\<open>credentials.json\<close> exists, so the whole run is the same with and
  without the file.\<close>

lemma get_service_credentials:
  assumes "token_json ev \<noteq> None"
    and "valid (the (token_json ev))
         \<or> expired (the (token_json ev)) \<and> truthy (refresh_token (the (token_json ev)))"
  shows "get_service (ev\<lparr>credentials_json_exists := b\<rparr>) w = get_service ev w"
  using assms by (auto simp: get_service_def)

lemma run_credentials:
  assumes "token_json ev \<noteq> None"
    and "valid (the (token_json ev))
         \<or> expired (the (token_json ev)) \<and> truthy (refresh_token (the (token_json ev)))"
  shows "run fuel (ev\<lparr>credentials_json_exists := b\<rparr>) svc a r = run fuel ev svc a r"
  unfolding run_def main_def try_block_def get_service_credentials [OF assms] by (rule refl)

text \<open>
  Claim C6, as stated, fails: with a valid stored token the program never looks for
  \<^verbatim>\<open>credentials.json\<close>, so a run without that file completes (exit code 0) after its
  remote requests.
\<close>

theorem missing_credentials_unnoticed_counterexample:
  "\<not> credentials_json_exists token_only
   \<and> fst (run 3 token_only (paged_service two_pages) example_args ()) = Some Completed
   \<and> list_ex is_remote (trace (snd (run 3 token_only (paged_service two_pages) example_args ())))"
  unfolding example_live_run by (simp add: token_only_def)

text \<open>
  Claim C6, amended. In every run: with neither \<open>--all\<close> nor a non-empty \<open>--query\<close>, and
  with a batch size outside 1..1000, the run ends with exit code 2 and no remote request
  (no list or mutating request, no token refresh, no consent flow) is in its trace, and
  for a valid mode the matching message is printed. With accepted arguments, when
  \<^verbatim>\<open>credentials.json\<close> is missing and is needed (there is no stored token, or the stored
  token is invalid and not both expired and refreshable), the run prints the
  missing-credentials message and ends with exit code 1, again with no remote request.
  With a stored token that is valid, or that is expired and can be refreshed, the file
  is never looked for: the run, its outcome and its whole trace, is the same whether
  \<^verbatim>\<open>credentials.json\<close> exists or not, so its absence is not an error.
\<close>

theorem local_errors_exit_before_remote_calls:
  assumes "run fuel ev svc a r = (res, w')"
  shows "(\<not> all_flag a \<and> \<not> truthy (query a) \<longrightarrow>
            res = Some (Exit 2) \<and> (\<forall>e \<in> set (trace w'). \<not> is_remote e)
            \<and> (mode a = ''trash'' \<or> mode a = ''delete'' \<longrightarrow>
                 Print MsgProvideAllOrQuery \<in> set (trace w')))
       \<and> (\<not> (1 \<le> batch_size a \<and> batch_size a \<le> 1000) \<longrightarrow>
            res = Some (Exit 2) \<and> (\<forall>e \<in> set (trace w'). \<not> is_remote e)
            \<and> ((mode a = ''trash'' \<or> mode a = ''delete'') \<and> (all_flag a \<or> truthy (query a)) \<longrightarrow>
                 Print MsgBatchSizeRange \<in> set (trace w')))
       \<and> (accepted a \<and> \<not> credentials_json_exists ev
            \<and> (token_json ev = None
                \<or> \<not> valid (the (token_json ev))
                  \<and> \<not> (expired (the (token_json ev)) \<and> truthy (refresh_token (the (token_json ev)))))
          \<longrightarrow> res = Some (Exit 1) \<and> (\<forall>e \<in> set (trace w'). \<not> is_remote e)
              \<and> Print MsgMissingCredentials \<in> set (trace w'))
       \<and> (token_json ev \<noteq> None
            \<and> (valid (the (token_json ev))
                \<or> expired (the (token_json ev)) \<and> truthy (refresh_token (the (token_json ev))))
          \<longrightarrow> run fuel (ev\<lparr>credentials_json_exists := b\<rparr>) svc a r = (res, w'))"
proof (intro conjI impI)
  assume h: "\<not> all_flag a \<and> \<not> truthy (query a)"
  from main_no_target [OF h, of fuel ev svc "\<lparr>remote = r, trace = []\<rparr>"] assms [unfolded run_def]
  have m: "(if mode a \<noteq> ''trash'' \<and> mode a \<noteq> ''delete'' then (Some (Exit 2), \<lparr>remote = r, trace = []\<rparr>)
      else (Some (Exit 2), emit (Print MsgProvideAllOrQuery) \<lparr>remote = r, trace = []\<rparr>)) = (res, w')"
    by simp
  then show "res = Some (Exit 2)" by (simp split: if_splits)
  from m show "\<forall>e \<in> set (trace w'). \<not> is_remote e" by (auto split: if_splits)
  assume "mode a = ''trash'' \<or> mode a = ''delete''"
  with m show "Print MsgProvideAllOrQuery \<in> set (trace w')" by (auto split: if_splits)
next
  assume h: "\<not> (1 \<le> batch_size a \<and> batch_size a \<le> 1000)"
  from main_bad_batch [OF h, of fuel ev svc "\<lparr>remote = r, trace = []\<rparr>"] assms [unfolded run_def]
  have m: "(if mode a \<noteq> ''trash'' \<and> mode a \<noteq> ''delete'' then (Some (Exit 2), \<lparr>remote = r, trace = []\<rparr>)
      else if \<not> all_flag a \<and> \<not> truthy (query a)
        then (Some (Exit 2), emit (Print MsgProvideAllOrQuery) \<lparr>remote = r, trace = []\<rparr>)
        else (Some (Exit 2), emit (Print MsgBatchSizeRange) \<lparr>remote = r, trace = []\<rparr>)) = (res, w')"
    by simp
  then show "res = Some (Exit 2)" by (simp split: if_splits)
  from m show "\<forall>e \<in> set (trace w'). \<not> is_remote e" by (auto split: if_splits)
  assume "(mode a = ''trash'' \<or> mode a = ''delete'') \<and> (all_flag a \<or> truthy (query a))"
  with m show "Print MsgBatchSizeRange \<in> set (trace w')" by (auto split: if_splits)
next
  assume h: "accepted a \<and> \<not> credentials_json_exists ev
            \<and> (token_json ev = None
                \<or> \<not> valid (the (token_json ev))
                  \<and> \<not> (expired (the (token_json ev)) \<and> truthy (refresh_token (the (token_json ev)))))"
  define w0 :: "'a world" where "w0 = emit (Print (MsgBatch (batch_size a) (max_count a) (include_spam_trash a)))
         (emit (Print (MsgMode (mode a) (dry_run a)))
           (emit (Print (MsgTarget (if all_flag a then None else query a)))
              \<lparr>remote = r, trace = []\<rparr>))"
  from h have gs: "get_service ev w0 = (Raise (SystemExit 1), emit (Print MsgMissingCredentials) w0)"
  proof -
    from h have c1: "token_json ev = None \<or> \<not> valid (the (token_json ev))"
      and c2: "\<not> (token_json ev \<noteq> None \<and> expired (the (token_json ev))
                \<and> truthy (refresh_token (the (token_json ev))))"
      and c3: "\<not> credentials_json_exists ev"
      by auto
    show ?thesis unfolding get_service_def by (simp only: c1 c2 c3 if_True if_False not_False_eq_True)
  qed
  then have tb: "try_block fuel ev svc a w0
      = (Some (Raise (SystemExit 1)), emit (Print MsgMissingCredentials) w0)"
    by (simp add: try_block_def)
  from h have acc: "accepted a" by simp
  from main_accepted [OF acc assms [unfolded run_def]] obtain r1 w1 where
    tb1: "try_block fuel ev svc a w0 = (r1, w1)"
    and res1: "res = (case r1 of None \<Rightarrow> None | Some (Ok u) \<Rightarrow> Some Completed
                 | Some (Raise (HttpError d)) \<Rightarrow> Some (Exit 1)
                 | Some (Raise KeyboardInterrupt) \<Rightarrow> Some (Exit 130)
                 | Some (Raise (SystemExit n)) \<Rightarrow> Some (Exit n)
                 | Some (Raise e) \<Rightarrow> Some (Uncaught e))"
    and w1: "w' = w1 \<or> (\<exists>m. w' = emit (Print m) w1)"
    unfolding w0_def by blast
  from tb tb1 have r1: "r1 = Some (Raise (SystemExit 1))"
    and w1': "w1 = emit (Print MsgMissingCredentials) w0" by simp_all
  from res1 r1 show "res = Some (Exit 1)" by simp
  have t0: "trace w0 = [Print (MsgTarget (if all_flag a then None else query a)),
      Print (MsgMode (mode a) (dry_run a)),
      Print (MsgBatch (batch_size a) (max_count a) (include_spam_trash a))]"
    by (simp add: w0_def)
  from w1 w1' t0 show "\<forall>e \<in> set (trace w'). \<not> is_remote e" by auto
  from w1 w1' t0 show "Print MsgMissingCredentials \<in> set (trace w')" by auto
next
  assume t: "token_json ev \<noteq> None
            \<and> (valid (the (token_json ev))
                \<or> expired (the (token_json ev)) \<and> truthy (refresh_token (the (token_json ev))))"
  then have "run fuel (ev\<lparr>credentials_json_exists := b\<rparr>) svc a r = run fuel ev svc a r"
    by (intro run_credentials) simp_all
  with assms show "run fuel (ev\<lparr>credentials_json_exists := b\<rparr>) svc a r = (res, w')" by simp
qed

theorem local_errors_exit_before_remote_calls_witness:
  "fst (run 3 token_only (paged_service two_pages) (example_args\<lparr>query := None\<rparr>) ()) = Some (Exit 2)
   \<and> list_all (\<lambda>e. \<not> is_remote e)
       (trace (snd (run 3 token_only (paged_service two_pages) (example_args\<lparr>query := None\<rparr>) ())))
   \<and> fst (run 3 token_only (paged_service two_pages) (example_args\<lparr>batch_size := 1500\<rparr>) ()) = Some (Exit 2)
   \<and> list_all (\<lambda>e. \<not> is_remote e)
       (trace (snd (run 3 token_only (paged_service two_pages) (example_args\<lparr>batch_size := 1500\<rparr>) ())))
   \<and> fst (run 3 no_files (paged_service two_pages) example_args ()) = Some (Exit 1)
   \<and> list_all (\<lambda>e. \<not> is_remote e)
       (trace (snd (run 3 no_files (paged_service two_pages) example_args ())))
   \<and> \<not> credentials_json_exists token_only
   \<and> run 3 (token_only\<lparr>credentials_json_exists := True\<rparr>) (paged_service two_pages) example_args ()
       = run 3 token_only (paged_service two_pages) example_args ()
   \<and> \<not> credentials_json_exists refreshable_token
   \<and> run 3 (refreshable_token\<lparr>credentials_json_exists := True\<rparr>) (paged_service two_pages) example_args ()
       = run 3 refreshable_token (paged_service two_pages) example_args ()
   \<and> fst (run 3 refreshable_token (paged_service two_pages) example_args ()) = Some Completed
   \<and> list_ex (\<lambda>e. e = AuthRefresh)
       (trace (snd (run 3 refreshable_token (paged_service two_pages) example_args ())))"
proof -
  have a: "accepted example_args" by (simp add: accepted_def example_args_def)
  from local_errors_exit_before_remote_calls [OF example_no_query_run]
  have 1: "Some (Exit 2) = Some (Exit 2) \<and> list_all (\<lambda>e. \<not> is_remote e) [Print MsgProvideAllOrQuery]"
    by (simp add: example_args_def)
  from local_errors_exit_before_remote_calls [OF example_batch_size_run]
  have 2: "list_all (\<lambda>e. \<not> is_remote e) [Print MsgBatchSizeRange]"
    by (simp add: example_args_def)
  from local_errors_exit_before_remote_calls [OF example_no_files_run] a
  have 3: "list_all (\<lambda>e. \<not> is_remote e)
     [Print (MsgTarget (Some ''older_than:1y'')), Print (MsgMode ''trash'' False),
      Print (MsgBatch 2 0 False), Print MsgMissingCredentials]"
    by (simp add: no_files_def)
  have t: "token_json token_only \<noteq> None \<and> valid (the (token_json token_only))"
    "\<not> credentials_json_exists token_only"
    by (simp_all add: token_only_def)
  from local_errors_exit_before_remote_calls [OF example_live_run, of True] t
  have 4: "run 3 (token_only\<lparr>credentials_json_exists := True\<rparr>) (paged_service two_pages) example_args ()
       = run 3 token_only (paged_service two_pages) example_args ()"
    unfolding example_live_run by simp
  have u: "token_json refreshable_token \<noteq> None
      \<and> expired (the (token_json refreshable_token))
      \<and> truthy (refresh_token (the (token_json refreshable_token)))"
    "\<not> credentials_json_exists refreshable_token"
    by (simp_all add: refreshable_token_def)
  from local_errors_exit_before_remote_calls [OF example_refresh_run, of True] u
  have 5: "run 3 (refreshable_token\<lparr>credentials_json_exists := True\<rparr>) (paged_service two_pages) example_args ()
       = run 3 refreshable_token (paged_service two_pages) example_args ()"
    unfolding example_refresh_run by simp
  have 6: "fst (run 3 refreshable_token (paged_service two_pages) example_args ()) = Some Completed"
    "list_ex (\<lambda>e. e = AuthRefresh)
       (trace (snd (run 3 refreshable_token (paged_service two_pages) example_args ())))"
    unfolding example_refresh_run by simp_all
  from 1 2 3 t(2) 4 u(2) 5 6 show ?thesis
    unfolding example_no_query_run example_batch_size_run example_no_files_run by simp
qed

section \<open>A failing second page\<close>

text \<open>Below the flush threshold the loop body only appends to the buffer and counts: a
  page that keeps the buffer under 5000 is scanned without any request, flush or print,
  and ends as \<open>cap_hit\<close> says.\<close>

lemma loop_body_buffering:
  "Suc (length (fst c)) < 5000 \<Longrightarrow> loop_body svc a i c w = (Ok (fst c @ [i], Suc (snd c)), w)"
  by (simp add: loop_body_def Let_def)

lemma cap_hit_skip:
  "\<not> (mx \<noteq> 0 \<and> mx \<le> int tot) \<Longrightarrow> \<not> truthy (msg_id m) \<Longrightarrow>
   cap_hit mx tot (m # ms) = cap_hit mx tot ms"
  by auto

lemma cap_hit_yield:
  "\<not> (mx \<noteq> 0 \<and> mx \<le> int tot) \<Longrightarrow> truthy (msg_id m) \<Longrightarrow>
   cap_hit mx tot (m # ms) = cap_hit mx (Suc tot) ms"
  by auto

lemma cap_hit_cap: "mx \<noteq> 0 \<and> mx \<le> int tot \<Longrightarrow> cap_hit mx tot (m # ms)"
  by simp

lemma scan_page_buffers:
  assumes "length (fst c) + length ms < 5000" and "\<not> cap_hit mx tot ms"
  shows "scan_page mx (loop_body svc a) ms tot c w =
           (Ok (Exhausted
                  (tot + length (filter (\<lambda>m. truthy (msg_id m)) ms))
                  (fst c @ map (\<lambda>m. the (msg_id m)) (filter (\<lambda>m. truthy (msg_id m)) ms),
                   snd c + length (filter (\<lambda>m. truthy (msg_id m)) ms))),
            w\<lparr>trace := trace w
                 @ map (\<lambda>m. Yield (the (msg_id m))) (filter (\<lambda>m. truthy (msg_id m)) ms)\<rparr>)"
  using assms
proof (induction ms arbitrary: tot c w)
  case Nil
  then show ?case by simp
next
  case (Cons m ms)
  have cap: "\<not> (mx \<noteq> 0 \<and> mx \<le> int tot)"
    using Cons.prems(2) cap_hit_cap [of mx tot m ms] by blast
  show ?case
  proof (cases "truthy (msg_id m)")
    case False
    from Cons.prems(1) have l: "length (fst c) + length ms < 5000" by simp
    from Cons.prems(2) have n: "\<not> cap_hit mx tot ms"
      unfolding cap_hit_skip [OF cap False] .
    have f: "filter (\<lambda>m. truthy (msg_id m)) (m # ms) = filter (\<lambda>m. truthy (msg_id m)) ms"
      using False by simp
    show ?thesis unfolding scan_page_skip [OF cap False] f by (rule Cons.IH [OF l n])
  next
    case True
    define i where "i = the (msg_id m)"
    from Cons.prems(1) have s: "Suc (length (fst c)) < 5000" by simp
    note lb = loop_body_buffering [OF s, of svc a i "emit (Yield i) w"]
    from Cons.prems(1) have l: "length (fst (fst c @ [i], Suc (snd c))) + length ms < 5000"
      by simp
    from Cons.prems(2) have n: "\<not> cap_hit mx (Suc tot) ms"
      unfolding cap_hit_yield [OF cap True] .
    have f: "filter (\<lambda>m. truthy (msg_id m)) (m # ms) = m # filter (\<lambda>m. truthy (msg_id m)) ms"
      using True by simp
    have "scan_page mx (loop_body svc a) (m # ms) tot c w
        = scan_page mx (loop_body svc a) ms (Suc tot) (fst c @ [i], Suc (snd c)) (emit (Yield i) w)"
      unfolding scan_page_yield [OF cap True] using lb by (simp add: i_def)
    also note Cons.IH [OF l n, of "emit (Yield i) w"]
    finally show ?thesis unfolding f by (simp add: i_def emit_def)
  qed
qed

lemma get_service_fst: "fst (get_service ev w) = fst (get_service ev w2)"
  by (simp add: get_service_def split: option.splits)

lemma get_service_snd:
  "snd (get_service ev w) = w\<lparr>trace := trace w @ trace (snd (get_service ev (fresh r)))\<rparr>"
  by (simp add: get_service_def emit_def fresh_def split: option.splits)

text \<open>
  Claim C5. Let the arguments be accepted and the authentication succeed. If the first
  list request returns a page of at most 500 records with a continuation token, the cap
  is not reached within that page, and the second list request fails with an
  \<open>HttpError\<close>, then the run (with fuel for at least two requests) ends with exit code 1
  and its trace is exactly: the banner, the events of the authentication, the first list
  request and its reply, one \<open>Yield\<close> for each identifier of the first page, the second
  list request, and the printed API error. So the trace holds no mutating request and,
  in a dry run, no count line either: nothing was flushed. The loop over the first page
  itself, from the empty buffer and in any world, ends with the page exhausted and the
  buffer holding exactly the identifiers of that page, their number as the running
  total, and nothing in the world changed but those \<open>Yield\<close> events.
\<close>

theorem second_page_failure_aborts_before_any_mutation:
  assumes acc: "accepted a"
    and auth: "fst (get_service ev (fresh r)) = Ok ()"
    and p1: "messages_list svc r ''me'' (if all_flag a then None else query a)
               (include_spam_trash a) None 500 = (Inr resp, r1)"
    and size: "length (case messages resp of None \<Rightarrow> [] | Some ms \<Rightarrow> ms) \<le> 500"
    and more: "truthy (nextPageToken resp)"
    and nocap: "\<not> cap_hit (max_count a) 0 (case messages resp of None \<Rightarrow> [] | Some ms \<Rightarrow> ms)"
    and p2: "messages_list svc r1 ''me'' (if all_flag a then None else query a)
               (include_spam_trash a) (nextPageToken resp) 500 = (Inl (HttpFailure d), r2)"
  shows "(\<exists>w'. run (Suc (Suc fuel)) ev svc a r = (Some (Exit 1), w')
           \<and> remote w' = r2
           \<and> trace w' =
               [Print (MsgTarget (if all_flag a then None else query a)),
                Print (MsgMode (mode a) (dry_run a)),
                Print (MsgBatch (batch_size a) (max_count a) (include_spam_trash a))]
               @ trace (snd (get_service ev (fresh r)))
               @ [ListCall ''me'' (if all_flag a then None else query a) (include_spam_trash a) None 500,
                  ListReply resp]
               @ map Yield (page_ids resp)
               @ [ListCall ''me'' (if all_flag a then None else query a) (include_spam_trash a)
                    (nextPageToken resp) 500,
                  Print (MsgApiError d)]
           \<and> mutations (trace w') = []
           \<and> yields (trace w') = page_ids resp
           \<and> requests (trace w')
               = [ListCall ''me'' (if all_flag a then None else query a) (include_spam_trash a) None 500,
                  ListCall ''me'' (if all_flag a then None else query a) (include_spam_trash a)
                    (nextPageToken resp) 500])
       \<and> (\<forall>w. scan_page (max_count a) (loop_body svc a)
                 (case messages resp of None \<Rightarrow> [] | Some ms \<Rightarrow> ms) 0 ([], 0) w
               = (Ok (Exhausted (length (page_ids resp)) (page_ids resp, length (page_ids resp))),
                  w\<lparr>trace := trace w @ map Yield (page_ids resp)\<rparr>))"
proof -
  define q where "q = (if all_flag a then None else query a)"
  define ist where "ist = include_spam_trash a"
  define ms where "ms = (case messages resp of None \<Rightarrow> [] | Some ms \<Rightarrow> ms)"
  define banner where "banner = [Print (MsgTarget (if all_flag a then None else query a)),
                Print (MsgMode (mode a) (dry_run a)),
                Print (MsgBatch (batch_size a) (max_count a) (include_spam_trash a))]"
  define auth_events where "auth_events = trace (snd (get_service ev (fresh r)))"
  define w0 :: "'a world" where
    "w0 = emit (Print (MsgBatch (batch_size a) (max_count a) (include_spam_trash a)))
            (emit (Print (MsgMode (mode a) (dry_run a)))
              (emit (Print (MsgTarget (if all_flag a then None else query a)))
                 \<lparr>remote = r, trace = []\<rparr>))"
  have v0: "remote w0 = r" "trace w0 = banner"
    by (simp_all add: w0_def banner_def)
  have scan: "scan_page (max_count a) (loop_body svc a) ms 0 ([], 0) w
               = (Ok (Exhausted (length (page_ids resp)) (page_ids resp, length (page_ids resp))),
                  w\<lparr>trace := trace w @ map Yield (page_ids resp)\<rparr>)" for w :: "'a world"
  proof -
    have l: "length (fst (([]::string list), 0::nat)) + length ms < 5000"
      using size by (simp add: ms_def)
    have n: "\<not> cap_hit (max_count a) 0 ms" using nocap by (simp add: ms_def)
    show ?thesis
      using scan_page_buffers [OF l n, of svc a w]
      by (simp add: page_ids_def ms_def comp_def)
  qed
  define w1 where "w1 = snd (get_service ev w0)"
  have "fst (get_service ev w0) = Ok ()" using auth get_service_fst [of ev w0 "fresh r"] by simp
  then have gs: "get_service ev w0 = (Ok (), w1)"
    by (cases "get_service ev w0") (simp add: w1_def)
  have v1: "remote w1 = r" "trace w1 = banner @ auth_events"
    using get_service_snd [of ev w0 r] v0 by (simp_all add: w1_def auth_events_def)
  define w2 where "w2 = emit (ListReply resp) (emit (ListCall ''me'' q ist None 500) (w1\<lparr>remote := r1\<rparr>))"
  have cl1: "call_list svc q ist None w1 = (Ok resp, w2)"
    using p1 v1(1) by (simp add: call_list_def w2_def q_def ist_def)
  have v2: "remote w2 = r1"
    "trace w2 = banner @ auth_events @ [ListCall ''me'' q ist None 500, ListReply resp]"
    using v1 by (simp_all add: w2_def)
  define w3 where "w3 = w2\<lparr>trace := trace w2 @ map Yield (page_ids resp)\<rparr>"
  have v3: "remote w3 = r1"
    "trace w3 = banner @ auth_events @ [ListCall ''me'' q ist None 500, ListReply resp]
                  @ map Yield (page_ids resp)"
    using v2 by (simp_all add: w3_def)
  define w4 where "w4 = emit (ListCall ''me'' q ist (nextPageToken resp) 500) (w3\<lparr>remote := r2\<rparr>)"
  have cl2: "call_list svc q ist (nextPageToken resp) w3 = (Raise (HttpError d), w4)"
    using p2 v3(1) by (simp add: call_list_def w4_def q_def ist_def)
  have "page_loop (Suc fuel) svc q ist (max_count a) (loop_body svc a) (nextPageToken resp)
          (length (page_ids resp)) (page_ids resp, length (page_ids resp)) w3
          = (Some (Raise (HttpError d)), w4)"
    using cl2 by simp
  then have pl: "page_loop (Suc (Suc fuel)) svc q ist (max_count a) (loop_body svc a) None 0 ([], 0) w1
          = (Some (Raise (HttpError d)), w4)"
    using cl1 scan [of w2] more by (simp add: ms_def w3_def)
  have tb: "try_block (Suc (Suc fuel)) ev svc a w0 = (Some (Raise (HttpError d)), w4)"
    using gs pl unfolding try_block_def list_message_ids_def q_def ist_def by simp
  have acc': "\<not> (mode a \<noteq> ''trash'' \<and> mode a \<noteq> ''delete'')"
    "\<not> (\<not> all_flag a \<and> \<not> truthy (query a))" "1 \<le> batch_size a \<and> batch_size a \<le> 1000"
    using acc by (auto simp: accepted_def)
  define w5 where "w5 = emit (Print (MsgApiError d)) w4"
  have run: "run (Suc (Suc fuel)) ev svc a r = (Some (Exit 1), w5)"
    unfolding run_def main_def w5_def using tb [unfolded w0_def]
    by (simp only: acc' if_False not_True_eq_False simp_thms) simp
  have v5: "remote w5 = r2"
    "trace w5 = banner @ auth_events @ [ListCall ''me'' q ist None 500, ListReply resp]
                  @ map Yield (page_ids resp)
                  @ [ListCall ''me'' q ist (nextPageToken resp) 500, Print (MsgApiError d)]"
    using v3 by (simp_all add: w5_def w4_def)
  have g: "mutations auth_events = []" "yields auth_events = []" "requests auth_events = []"
    using get_service_views [OF gs] v0 v1
    by (simp_all add: banner_def)
  have y: "yields (map Yield ids) = ids" "mutations (map Yield ids) = []"
    "requests (map Yield ids) = []" for ids
    by (induction ids) simp_all
  have m5: "mutations (trace w5) = []" "yields (trace w5) = page_ids resp"
    "requests (trace w5) = [ListCall ''me'' q ist None 500, ListCall ''me'' q ist (nextPageToken resp) 500]"
    unfolding v5 using g y by (simp_all add: banner_def)
  from run v5 m5 scan show ?thesis
    unfolding q_def ist_def ms_def banner_def auth_events_def by blast
qed

theorem second_page_failure_aborts_before_any_mutation_witness:
  "accepted example_args
   \<and> fst (get_service token_only (fresh ())) = Ok ()
   \<and> messages_list (paged_service second_page_fails) () ''me'' (Some ''older_than:1y'') False None 500
       = (Inr (ListResponse (Some [Message (Some ''a''), Message (Some ''b'')]) (Some ''t'')), ())
   \<and> messages_list (paged_service second_page_fails) () ''me'' (Some ''older_than:1y'') False (Some ''t'') 500
       = (Inl (HttpFailure ''backend error''), ())
   \<and> run (Suc (Suc 0)) token_only (paged_service second_page_fails) example_args ()
       = (Some (Exit 1),
          \<lparr>remote = (),
           trace =
             [Print (MsgTarget (Some ''older_than:1y'')), Print (MsgMode ''trash'' False),
              Print (MsgBatch 2 0 False),
              ListCall ''me'' (Some ''older_than:1y'') False None 500,
              ListReply (ListResponse (Some [Message (Some ''a''), Message (Some ''b'')]) (Some ''t'')),
              Yield ''a'', Yield ''b'',
              ListCall ''me'' (Some ''older_than:1y'') False (Some ''t'') 500,
              Print (MsgApiError ''backend error'')]\<rparr>)
   \<and> scan_page 0 (loop_body (paged_service second_page_fails) example_args)
         [Message (Some ''a''), Message (Some ''b'')] 0 ([], 0) (fresh ())
       = (Ok (Exhausted 2 ([''a'', ''b''], 2)), \<lparr>remote = (), trace = [Yield ''a'', Yield ''b'']\<rparr>)"
proof -
  let ?resp = "ListResponse (Some [Message (Some ''a''), Message (Some ''b'')]) (Some ''t'')"
  have acc: "accepted example_args" by (simp add: accepted_def example_args_def)
  have auth: "fst (get_service token_only (fresh ())) = Ok ()"
    by (simp add: get_service_def token_only_def)
  have p1: "messages_list (paged_service second_page_fails) () ''me''
              (if all_flag example_args then None else query example_args)
              (include_spam_trash example_args) None 500 = (Inr ?resp, ())"
    by (simp add: paged_service_def second_page_fails_def example_args_def)
  have size: "length (case messages ?resp of None \<Rightarrow> [] | Some ms \<Rightarrow> ms) \<le> 500" by simp
  have more: "truthy (nextPageToken ?resp)" by simp
  have nocap: "\<not> cap_hit (max_count example_args) 0 (case messages ?resp of None \<Rightarrow> [] | Some ms \<Rightarrow> ms)"
    by (simp add: example_args_def)
  have p2: "messages_list (paged_service second_page_fails) () ''me''
              (if all_flag example_args then None else query example_args)
              (include_spam_trash example_args) (nextPageToken ?resp) 500
            = (Inl (HttpFailure ''backend error''), ())"
    by (simp add: paged_service_def second_page_fails_def example_args_def)
  have sel: "all_flag example_args = False" "query example_args = Some ''older_than:1y''"
    "include_spam_trash example_args = False" "mode example_args = ''trash''"
    "dry_run example_args = False" "batch_size example_args = 2" "max_count example_args = 0"
    by (simp_all add: example_args_def)
  have ids: "page_ids ?resp = [''a'', ''b'']" by (simp add: page_ids_def)
  have ga: "trace (snd (get_service token_only (fresh ()))) = []"
    by (simp add: get_service_def token_only_def fresh_def)
  note inst = second_page_failure_aborts_before_any_mutation [OF acc auth p1 size more nocap p2, of 0]
  from inst obtain w' where
    r: "run (Suc (Suc 0)) token_only (paged_service second_page_fails) example_args ()
          = (Some (Exit 1), w')"
    and w': "remote w' = ()"
      "trace w' =
             [Print (MsgTarget (Some ''older_than:1y'')), Print (MsgMode ''trash'' False),
              Print (MsgBatch 2 0 False),
              ListCall ''me'' (Some ''older_than:1y'') False None 500,
              ListReply ?resp,
              Yield ''a'', Yield ''b'',
              ListCall ''me'' (Some ''older_than:1y'') False (Some ''t'') 500,
              Print (MsgApiError ''backend error'')]"
    unfolding sel ids ga by auto
  from w' have "w' = \<lparr>remote = (),
           trace =
             [Print (MsgTarget (Some ''older_than:1y'')), Print (MsgMode ''trash'' False),
              Print (MsgBatch 2 0 False),
              ListCall ''me'' (Some ''older_than:1y'') False None 500,
              ListReply ?resp,
              Yield ''a'', Yield ''b'',
              ListCall ''me'' (Some ''older_than:1y'') False (Some ''t'') 500,
              Print (MsgApiError ''backend error'')]\<rparr>"
    by (cases w') simp
  with r have 1: "run (Suc (Suc 0)) token_only (paged_service second_page_fails) example_args ()
       = (Some (Exit 1),
          \<lparr>remote = (),
           trace =
             [Print (MsgTarget (Some ''older_than:1y'')), Print (MsgMode ''trash'' False),
              Print (MsgBatch 2 0 False),
              ListCall ''me'' (Some ''older_than:1y'') False None 500,
              ListReply ?resp,
              Yield ''a'', Yield ''b'',
              ListCall ''me'' (Some ''older_than:1y'') False (Some ''t'') 500,
              Print (MsgApiError ''backend error'')]\<rparr>)"
    by simp
  from inst have "scan_page (max_count example_args) (loop_body (paged_service second_page_fails) example_args)
         (case messages ?resp of None \<Rightarrow> [] | Some ms \<Rightarrow> ms) 0 ([], 0) (fresh ())
       = (Ok (Exhausted (length (page_ids ?resp)) (page_ids ?resp, length (page_ids ?resp))),
          (fresh ())\<lparr>trace := trace (fresh ()) @ map Yield (page_ids ?resp)\<rparr>)"
    by blast
  then have 2: "scan_page 0 (loop_body (paged_service second_page_fails) example_args)
         [Message (Some ''a''), Message (Some ''b'')] 0 ([], 0) (fresh ())
       = (Ok (Exhausted 2 ([''a'', ''b''], 2)), \<lparr>remote = (), trace = [Yield ''a'', Yield ''b'']\<rparr>)"
    unfolding sel ids by (simp add: fresh_def)
  from acc auth p1 p2 1 2 show ?thesis unfolding sel by simp
qed

section \<open>How far the lister goes\<close>

lemma quiet_yields:
  assumes "quiet body" and "body i c w = (r, w')"
  shows "yields (trace w') = yields (trace w)" "replies (trace w') = replies (trace w)"
    "requests (trace w') = requests (trace w)"
  using assms(1) [unfolded quiet_def, rule_format, of i c w] assms(2) by simp_all

lemma call_list_lister_views:
  assumes "call_list svc q ist tok w = (Ok resp, w')"
  shows "replies (trace w') = replies (trace w) @ [resp]"
    "requests (trace w') = requests (trace w) @ [ListCall ''me'' q ist tok 500]"
  using call_list_trace [OF assms] by simp_all

text \<open>Without a cap the inner loop runs through the whole page and yields every
  identifier of it.\<close>

lemma scan_page_uncapped:
  assumes q: "quiet body" and run: "scan_page 0 body ms tot c w = (Ok pe, w')"
  shows "(\<exists>tot' c'. pe = Exhausted tot' c')
       \<and> yields (trace w') = yields (trace w) @ map (\<lambda>m. the (msg_id m)) (filter (\<lambda>m. truthy (msg_id m)) ms)
       \<and> replies (trace w') = replies (trace w)
       \<and> requests (trace w') = requests (trace w)"
  using run
proof (induction ms arbitrary: tot c w)
  case Nil
  then show ?case by auto
next
  case (Cons m ms)
  have cap: "\<not> ((0::int) \<noteq> 0 \<and> 0 \<le> int tot)" by simp
  show ?case
  proof (cases "truthy (msg_id m)")
    case False
    from Cons.prems have "scan_page 0 body ms tot c w = (Ok pe, w')"
      unfolding scan_page_skip [OF cap False] .
    from Cons.IH [OF this] False show ?thesis by simp
  next
    case True
    define i where "i = the (msg_id m)"
    obtain r1 w1 where b: "body i c (emit (Yield i) w) = (r1, w1)"
      by (cases "body i c (emit (Yield i) w)")
    note v = quiet_yields [OF q b]
    show ?thesis
    proof (cases r1)
      case (Raise e)
      with Cons.prems b show ?thesis unfolding scan_page_yield [OF cap True] by (simp add: i_def)
    next
      case (Ok c1)
      with Cons.prems b have "scan_page 0 body ms (Suc tot) c1 w1 = (Ok pe, w')"
        unfolding scan_page_yield [OF cap True] by (simp add: i_def)
      from Cons.IH [OF this] v True show ?thesis by (simp add: i_def)
    qed
  qed
qed

text \<open>Without a cap the page loop returns only after a reply without continuation token;
  every earlier reply carried one, and the identifiers of all replies have been yielded.\<close>

lemma page_loop_uncapped:
  assumes q: "quiet body"
    and run: "page_loop fuel svc qu ist 0 body tok tot c w = (Some (Ok c'), w')"
  shows "\<exists>rs. rs \<noteq> []
           \<and> replies (trace w') = replies (trace w) @ rs
           \<and> yields (trace w') = yields (trace w) @ concat (map page_ids rs)
           \<and> \<not> truthy (nextPageToken (last rs))
           \<and> (\<forall>resp \<in> set (butlast rs). truthy (nextPageToken resp))
           \<and> requests (trace w') = requests (trace w)
               @ map (\<lambda>t. ListCall ''me'' qu ist t 500) (tok # map nextPageToken (butlast rs))"
  using run
proof (induction fuel arbitrary: tok tot c w)
  case 0
  then show ?case by simp
next
  case (Suc fuel)
  obtain r1 w1 where cl: "call_list svc qu ist tok w = (r1, w1)"
    by (cases "call_list svc qu ist tok w")
  show ?case
  proof (cases r1)
    case (Raise e)
    with cl Suc.prems show ?thesis by simp
  next
    case (Ok resp)
    note v1 = call_list_lister_views [OF cl [unfolded Ok]] call_list_views(1) [OF cl]
    obtain r2 w2 where sp:
      "scan_page 0 body (case messages resp of None \<Rightarrow> [] | Some ms \<Rightarrow> ms) tot c w1 = (r2, w2)"
      by (cases "scan_page 0 body (case messages resp of None \<Rightarrow> [] | Some ms \<Rightarrow> ms) tot c w1")
    show ?thesis
    proof (cases r2)
      case (Raise e)
      with cl Ok sp Suc.prems show ?thesis by simp
    next
      case r2: (Ok pe)
      from scan_page_uncapped [OF q sp [unfolded r2]] obtain tot2 c2 where
        pe: "pe = Exhausted tot2 c2"
        and v2: "yields (trace w2) = yields (trace w1) @ page_ids resp"
          "replies (trace w2) = replies (trace w1)" "requests (trace w2) = requests (trace w1)"
        unfolding page_ids_def by blast
      show ?thesis
      proof (cases "truthy (nextPageToken resp)")
        case False
        with cl Ok sp r2 pe Suc.prems have "w' = w2" by simp
        with v1 v2 False show ?thesis by (intro exI [of _ "[resp]"]) simp
      next
        case True
        with cl Ok sp r2 pe Suc.prems
        have "page_loop fuel svc qu ist 0 body (nextPageToken resp) tot2 c2 w2 = (Some (Ok c'), w')"
          by simp
        from Suc.IH [OF this] obtain rs where rs: "rs \<noteq> []"
          "replies (trace w') = replies (trace w2) @ rs"
          "yields (trace w') = yields (trace w2) @ concat (map page_ids rs)"
          "\<not> truthy (nextPageToken (last rs))"
          "\<forall>resp \<in> set (butlast rs). truthy (nextPageToken resp)"
          "requests (trace w') = requests (trace w2)
               @ map (\<lambda>t. ListCall ''me'' qu ist t 500)
                   (nextPageToken resp # map nextPageToken (butlast rs))"
          by blast
        with v1 v2 True show ?thesis by (intro exI [of _ "resp # rs"]) simp
      qed
    qed
  qed
qed

text \<open>With a positive cap the identifiers yielded never outnumber it.\<close>

lemma page_loop_capped:
  assumes q: "quiet body" and mx: "0 < mx"
    and start: "length (yields (trace w)) = tot" "int tot \<le> mx"
    and run: "page_loop fuel svc qu ist mx body tok tot c w = (res, w')"
  shows "int (length (yields (trace w'))) \<le> mx"
proof -
  define S :: "nat \<Rightarrow> 'a \<Rightarrow> 'b world \<Rightarrow> bool" where
    "S = (\<lambda>tot c w. length (yields (trace w)) = tot \<and> int tot \<le> mx)"
  define F :: "'b world \<Rightarrow> bool" where "F = (\<lambda>w. int (length (yields (trace w))) \<le> mx)"
  have step: "length (yields (trace w2)) = Suc tot1 \<and> int (Suc tot1) \<le> mx"
    if "S tot1 c1 w1" "\<not> (mx \<noteq> 0 \<and> mx \<le> int tot1)" "body i c1 (emit (Yield i) w1) = (r, w2)"
    for tot1 c1 w1 i r w2
    using that(1,2) quiet_yields(1) [OF q that(3)] mx by (simp add: S_def)
  have lst: "length (yields (trace w2)) = tot1 \<and> int tot1 \<le> mx"
    if "S tot1 c1 w1" "call_list svc qu ist tok1 w1 = (r, w2)" for tot1 c1 w1 tok1 r w2
    using that(1) call_list_views(1) [OF that(2)] by (simp add: S_def)
  have "case res of Some (Ok c') \<Rightarrow> (\<exists>tot'. S tot' c' w') | _ \<Rightarrow> F w'"
  proof (rule page_loop_rule [where S = S and F = F, OF _ _ _ _ _ _ run])
    show "S tot c w" using start by (simp add: S_def)
    show "\<And>tot c w i c' w'. S tot c w \<Longrightarrow> \<not> (mx \<noteq> 0 \<and> mx \<le> int tot) \<Longrightarrow>
            body i c (emit (Yield i) w) = (Ok c', w') \<Longrightarrow> S (Suc tot) c' w'"
      using step unfolding S_def by blast
    show "\<And>tot c w i e w'. S tot c w \<Longrightarrow> \<not> (mx \<noteq> 0 \<and> mx \<le> int tot) \<Longrightarrow>
            body i c (emit (Yield i) w) = (Raise e, w') \<Longrightarrow> F w'"
      using step unfolding F_def by metis
    show "\<And>tot c w tok resp w'. S tot c w \<Longrightarrow> call_list svc qu ist tok w = (Ok resp, w') \<Longrightarrow> S tot c w'"
      using lst unfolding S_def by blast
    show "\<And>tot c w tok e w'. S tot c w \<Longrightarrow> call_list svc qu ist tok w = (Raise e, w') \<Longrightarrow> F w'"
      using lst unfolding F_def by metis
    show "\<And>tot c w. S tot c w \<Longrightarrow> F w" by (simp add: S_def F_def)
  qed
  then show ?thesis by (auto simp: S_def F_def split: option.splits result.splits)
qed

text \<open>Whatever the cap, a quiet loop body and the inner loop leave the requests and the
  replies of the trace as they are.\<close>

lemma scan_page_quiet:
  assumes q: "quiet body" and run: "scan_page mx body ms tot c w = (res, w')"
  shows "replies (trace w') = replies (trace w) \<and> requests (trace w') = requests (trace w)"
  using run
proof (induction ms arbitrary: tot c w)
  case Nil
  then show ?case by auto
next
  case (Cons m ms)
  show ?case
  proof (cases "mx \<noteq> 0 \<and> mx \<le> int tot")
    case True
    from Cons.prems scan_page_cap [OF True, of body m ms c w] show ?thesis by simp
  next
    case cap: False
    show ?thesis
    proof (cases "truthy (msg_id m)")
      case False
      from Cons.prems have "scan_page mx body ms tot c w = (res, w')"
        unfolding scan_page_skip [OF cap False] .
      then show ?thesis by (rule Cons.IH)
    next
      case True
      define i where "i = the (msg_id m)"
      obtain r1 w1 where b: "body i c (emit (Yield i) w) = (r1, w1)"
        by (cases "body i c (emit (Yield i) w)")
      note v = quiet_yields(2,3) [OF q b]
      show ?thesis
      proof (cases r1)
        case (Raise e)
        with Cons.prems b have "w' = w1"
          unfolding scan_page_yield [OF cap True] by (simp add: i_def)
        with v show ?thesis by simp
      next
        case (Ok c1)
        with Cons.prems b have "scan_page mx body ms (Suc tot) c1 w1 = (res, w')"
          unfolding scan_page_yield [OF cap True] by (simp add: i_def)
        from Cons.IH [OF this] v show ?thesis by simp
      qed
    qed
  qed
qed

text \<open>The page loop stops at the first reply without continuation token: in every run,
  whatever the cap and the outcome, every reply but the last carried a token, and each
  request after the first carries the token of the reply before it.\<close>

lemma page_loop_follows_tokens:
  assumes q: "quiet body"
    and run: "page_loop fuel svc qu ist mx body tok tot c w = (res, w')"
  shows "\<exists>rs ts. replies (trace w') = replies (trace w) @ rs
           \<and> (\<forall>resp \<in> set (butlast rs). truthy (nextPageToken resp))
           \<and> requests (trace w') = requests (trace w) @ map (\<lambda>t. ListCall ''me'' qu ist t 500) ts
           \<and> (rs = [] \<and> ts = []
               \<or> rs \<noteq> [] \<and> ts = tok # map nextPageToken (butlast rs)
               \<or> ts = tok # map nextPageToken rs)"
  using run
proof (induction fuel arbitrary: tok tot c w)
  case 0
  then have "w' = w" by simp
  then show ?case by (intro exI [of _ "[]"] exI [of _ "[]"]) simp
next
  case (Suc fuel)
  obtain r1 w1 where cl: "call_list svc qu ist tok w = (r1, w1)"
    by (cases "call_list svc qu ist tok w")
  note t1 = call_list_trace [OF cl]
  show ?case
  proof (cases r1)
    case (Raise e)
    with cl Suc.prems have "w' = w1" by simp
    with t1 Raise have "replies (trace w') = replies (trace w) @ []"
      "requests (trace w') = requests (trace w) @ map (\<lambda>t. ListCall ''me'' qu ist t 500) [tok]"
      by simp_all
    then show ?thesis by (intro exI [of _ "[]"] exI [of _ "[tok]"]) simp
  next
    case (Ok resp)
    with t1 have v1: "replies (trace w1) = replies (trace w) @ [resp]"
      "requests (trace w1) = requests (trace w) @ [ListCall ''me'' qu ist tok 500]"
      by simp_all
    obtain r2 w2 where sp:
      "scan_page mx body (case messages resp of None \<Rightarrow> [] | Some ms \<Rightarrow> ms) tot c w1 = (r2, w2)"
      by (cases "scan_page mx body (case messages resp of None \<Rightarrow> [] | Some ms \<Rightarrow> ms) tot c w1")
    from scan_page_quiet [OF q sp] v1
    have v2: "replies (trace w2) = replies (trace w) @ [resp]"
      "requests (trace w2) = requests (trace w) @ [ListCall ''me'' qu ist tok 500]"
      by simp_all
    have stop: ?thesis if "w' = w2"
      using v2 that by (intro exI [of _ "[resp]"] exI [of _ "[tok]"]) simp
    show ?thesis
    proof (cases r2)
      case (Raise e)
      with cl Ok sp Suc.prems have "w' = w2" by simp
      then show ?thesis by (rule stop)
    next
      case r2: (Ok pe)
      show ?thesis
      proof (cases pe)
        case (Returned c2)
        with cl Ok sp r2 Suc.prems have "w' = w2" by simp
        then show ?thesis by (rule stop)
      next
        case (Exhausted tot2 c2)
        show ?thesis
        proof (cases "truthy (nextPageToken resp)")
          case False
          with cl Ok sp r2 Exhausted Suc.prems have "w' = w2" by simp
          then show ?thesis by (rule stop)
        next
          case True
          with cl Ok sp r2 Exhausted Suc.prems
          have "page_loop fuel svc qu ist mx body (nextPageToken resp) tot2 c2 w2 = (res, w')"
            by simp
          from Suc.IH [OF this] obtain rs ts where rs:
            "replies (trace w') = replies (trace w2) @ rs"
            "\<forall>resp \<in> set (butlast rs). truthy (nextPageToken resp)"
            "requests (trace w') = requests (trace w2) @ map (\<lambda>t. ListCall ''me'' qu ist t 500) ts"
            "rs = [] \<and> ts = []
               \<or> rs \<noteq> [] \<and> ts = nextPageToken resp # map nextPageToken (butlast rs)
               \<or> ts = nextPageToken resp # map nextPageToken rs"
            by blast
          have a: "replies (trace w') = replies (trace w) @ (resp # rs)"
            using rs(1) v2 by simp
          have b: "\<forall>x \<in> set (butlast (resp # rs)). truthy (nextPageToken x)"
            using rs(2) True by simp
          have c: "requests (trace w') = requests (trace w)
              @ map (\<lambda>t. ListCall ''me'' qu ist t 500) (tok # ts)"
            using rs(3) v2 by simp
          have d: "resp # rs \<noteq> [] \<and> tok # ts = tok # map nextPageToken (butlast (resp # rs))
               \<or> tok # ts = tok # map nextPageToken (resp # rs)"
            using rs(4) by (cases "rs = []") auto
          from a b c d show ?thesis by blast
        qed
      qed
    qed
  qed
qed

text \<open>
  The page loop returns whenever the remote's continuation tokens cannot go on for ever:
  if some rank of the page tokens decreases from each request to the continuation token
  of its reply, fuel beyond the rank of the first token is enough.
\<close>

lemma page_loop_terminates:
  assumes rank: "\<And>r tok resp r'. messages_list svc r ''me'' qu ist tok 500 = (Inr resp, r') \<Longrightarrow>
                   truthy (nextPageToken resp) \<Longrightarrow> rank (nextPageToken resp) < (rank tok :: nat)"
    and fuel: "rank tok < fuel"
  shows "fst (page_loop fuel svc qu ist mx body tok tot c w) \<noteq> None"
  using fuel
proof (induction fuel arbitrary: tok tot c w)
  case 0
  then show ?case by simp
next
  case (Suc fuel)
  obtain x r' where x: "messages_list svc (remote w) ''me'' qu ist tok 500 = (x, r')"
    by (cases "messages_list svc (remote w) ''me'' qu ist tok 500")
  show ?case
  proof (cases x)
    case (Inl f)
    with x show ?thesis by (simp add: call_list_def)
  next
    case (Inr resp)
    define w1 where "w1 = emit (ListReply resp) (emit (ListCall ''me'' qu ist tok 500) (w\<lparr>remote := r'\<rparr>))"
    have cl: "call_list svc qu ist tok w = (Ok resp, w1)"
      using x Inr by (simp add: call_list_def w1_def)
    obtain r2 w2 where sp:
      "scan_page mx body (case messages resp of None \<Rightarrow> [] | Some ms \<Rightarrow> ms) tot c w1 = (r2, w2)"
      by (cases "scan_page mx body (case messages resp of None \<Rightarrow> [] | Some ms \<Rightarrow> ms) tot c w1")
    show ?thesis
    proof (cases r2)
      case (Raise e)
      with cl sp show ?thesis by simp
    next
      case r2: (Ok pe)
      show ?thesis
      proof (cases pe)
        case (Returned c2)
        with cl sp r2 show ?thesis by simp
      next
        case (Exhausted tot2 c2)
        show ?thesis
        proof (cases "truthy (nextPageToken resp)")
          case False
          with cl sp r2 Exhausted show ?thesis by simp
        next
          case True
          from rank [OF x [unfolded Inr] True] Suc.prems
          have "rank (nextPageToken resp) < fuel" by simp
          from Suc.IH [OF this, of tot2 c2 w2] cl sp r2 Exhausted True
          show ?thesis by simp
        qed
      qed
    qed
  qed
qed

lemma example_uncapped_listing:
  "list_message_ids 3 (paged_service two_pages) None False 0 collect [] (fresh ()) =
     (Some (Ok [''a'', ''b'', ''c'']),
      \<lparr>remote = (),
       trace =
         [ListCall ''me'' None False None 500,
          ListReply (ListResponse (Some [Message (Some ''a''), Message (Some ''b'')]) (Some ''t'')),
          Yield ''a'', Yield ''b'',
          ListCall ''me'' None False (Some ''t'') 500,
          ListReply (ListResponse (Some [Message (Some ''c'')]) None),
          Yield ''c'']\<rparr>)"
  by (simp add: list_message_ids_def paged_service_def two_pages_def call_list_def emit_def
      collect_def fresh_def eval_nat_numeral)

lemma example_capped_listing:
  "list_message_ids 3 (paged_service two_pages) None False 2 collect [] (fresh ()) =
     (Some (Ok [''a'', ''b'']),
      \<lparr>remote = (),
       trace =
         [ListCall ''me'' None False None 500,
          ListReply (ListResponse (Some [Message (Some ''a''), Message (Some ''b'')]) (Some ''t'')),
          Yield ''a'', Yield ''b'',
          ListCall ''me'' None False (Some ''t'') 500,
          ListReply (ListResponse (Some [Message (Some ''c'')]) None)]\<rparr>)"
  by (simp add: list_message_ids_def paged_service_def two_pages_def call_list_def emit_def
      collect_def fresh_def eval_nat_numeral)

text \<open>
  Claim C4. Run the lister from a fresh trace with any quiet loop body. With a maximum
  greater than 0 it yields at most that many identifiers, however the run ends. With
  maximum 0, when it returns, the identifiers yielded are exactly those of every page
  the remote returned, in order, whatever their number; the last page is the first one
  without a (non-empty) continuation token, every earlier page carried one, and there
  was one request for each page: the first without page token, each later one with the
  continuation token of the page before. And the lister does return, for any maximum,
  when the remote's continuation tokens cannot go on for ever (some rank of the page
  tokens decreases from each request to the continuation token of its reply) and the
  fuel exceeds the rank of the first request.
\<close>

theorem lister_yields_at_most_cap_or_every_page:
  assumes "quiet body"
    and "list_message_ids fuel svc q ist mx body c (fresh r) = (res, w')"
  shows "(0 < mx \<longrightarrow> int (length (yields (trace w'))) \<le> mx)
       \<and> (mx = 0 \<and> (\<exists>c'. res = Some (Ok c')) \<longrightarrow>
            yields (trace w') = concat (map page_ids (replies (trace w')))
            \<and> replies (trace w') \<noteq> []
            \<and> \<not> truthy (nextPageToken (last (replies (trace w'))))
            \<and> (\<forall>resp \<in> set (butlast (replies (trace w'))). truthy (nextPageToken resp))
            \<and> requests (trace w')
                = map (\<lambda>t. ListCall ''me'' q ist t 500)
                    (None # map nextPageToken (butlast (replies (trace w')))))
       \<and> ((\<forall>r0 tok resp r1.
               messages_list svc r0 ''me'' q ist tok 500 = (Inr resp, r1)
               \<and> truthy (nextPageToken resp)
               \<longrightarrow> rank (nextPageToken resp) < (rank tok :: nat))
            \<and> rank None < fuel
          \<longrightarrow> res \<noteq> None)"
proof -
  have capped: "int (length (yields (trace w'))) \<le> mx" if mx: "0 < mx"
    by (rule page_loop_capped [OF assms(1) mx _ _ assms(2) [unfolded list_message_ids_def]])
       (use mx in \<open>simp_all add: fresh_def\<close>)
  have uncapped: "yields (trace w') = concat (map page_ids (replies (trace w')))
            \<and> replies (trace w') \<noteq> []
            \<and> \<not> truthy (nextPageToken (last (replies (trace w'))))
            \<and> (\<forall>resp \<in> set (butlast (replies (trace w'))). truthy (nextPageToken resp))
            \<and> requests (trace w')
                = map (\<lambda>t. ListCall ''me'' q ist t 500)
                    (None # map nextPageToken (butlast (replies (trace w'))))"
    if h: "mx = 0 \<and> (\<exists>c'. res = Some (Ok c'))"
  proof -
    from h obtain c' where "page_loop fuel svc q ist 0 body None 0 c (fresh r) = (Some (Ok c'), w')"
      using assms(2) by (auto simp: list_message_ids_def)
    from page_loop_uncapped [OF assms(1) this] obtain rs where rs: "rs \<noteq> []"
      "replies (trace w') = rs" "yields (trace w') = concat (map page_ids rs)"
      "\<not> truthy (nextPageToken (last rs))" "\<forall>resp \<in> set (butlast rs). truthy (nextPageToken resp)"
      "requests (trace w') = map (\<lambda>t. ListCall ''me'' q ist t 500) (None # map nextPageToken (butlast rs))"
      by (auto simp: fresh_def)
    then show ?thesis by simp
  qed
  have returns: "res \<noteq> None"
    if h: "(\<forall>r0 tok resp r1.
               messages_list svc r0 ''me'' q ist tok 500 = (Inr resp, r1)
               \<and> truthy (nextPageToken resp)
               \<longrightarrow> rank (nextPageToken resp) < rank tok)
            \<and> rank None < fuel"
  proof -
    have "fst (page_loop fuel svc q ist mx body None 0 c (fresh r)) \<noteq> None"
      by (rule page_loop_terminates [where rank = rank]) (use h in blast)+
    with assms(2) show ?thesis by (simp add: list_message_ids_def)
  qed
  from capped uncapped returns show ?thesis by blast
qed

theorem lister_yields_at_most_cap_or_every_page_witness:
  "quiet (collect :: string \<Rightarrow> string list \<Rightarrow> unit world \<Rightarrow> string list result \<times> unit world)
   \<and> int (length (yields (trace (snd
         (list_message_ids 3 (paged_service two_pages) None False 2 collect [] (fresh ())))))) \<le> 2
   \<and> fst (list_message_ids 3 (paged_service two_pages) None False 0 collect [] (fresh ()))
       = Some (Ok [''a'', ''b'', ''c''])
   \<and> fst (list_message_ids 3 (paged_service two_pages) None False 0 collect [] (fresh ())) \<noteq> None
   \<and> yields (trace (snd
         (list_message_ids 3 (paged_service two_pages) None False 0 collect [] (fresh ()))))
       = concat (map page_ids
           [ListResponse (Some [Message (Some ''a''), Message (Some ''b'')]) (Some ''t''),
            ListResponse (Some [Message (Some ''c'')]) None])"
proof -
  have q: "quiet (collect :: string \<Rightarrow> string list \<Rightarrow> unit world \<Rightarrow> string list result \<times> unit world)"
    by (rule collect_quiet)
  from lister_yields_at_most_cap_or_every_page [OF q example_capped_listing]
  have 1: "int (length (yields (trace (snd
         (list_message_ids 3 (paged_service two_pages) None False 2 collect [] (fresh ())))))) \<le> 2"
    unfolding example_capped_listing by simp
  from lister_yields_at_most_cap_or_every_page [OF q example_uncapped_listing]
  have 2: "yields (trace (snd
         (list_message_ids 3 (paged_service two_pages) None False 0 collect [] (fresh ()))))
       = concat (map page_ids
           [ListResponse (Some [Message (Some ''a''), Message (Some ''b'')]) (Some ''t''),
            ListResponse (Some [Message (Some ''c'')]) None])"
    unfolding example_uncapped_listing by simp
  have rk: "\<forall>r0 tok resp r1.
      messages_list (paged_service two_pages) r0 ''me'' None False tok 500 = (Inr resp, r1)
      \<and> truthy (nextPageToken resp)
      \<longrightarrow> (if nextPageToken resp = None then 1 else 0) < (if tok = None then 1 else (0::nat))"
    by (auto simp: paged_service_def two_pages_def split: if_splits)
  have f: "(if (None :: string option) = None then 1 else (0::nat)) < 3" by simp
  from lister_yields_at_most_cap_or_every_page [OF q example_uncapped_listing,
      of "\<lambda>tok. if tok = None then 1 else 0"] rk f
  have 3: "fst (list_message_ids 3 (paged_service two_pages) None False 0 collect [] (fresh ())) \<noteq> None"
    unfolding example_uncapped_listing by simp
  from q 1 2 3 show ?thesis unfolding example_uncapped_listing by simp
qed

lemma example_capped_mid_page_listing:
  "list_message_ids 3 (paged_service two_pages) None False 1 collect [] (fresh ()) =
     (Some (Ok [''a'']),
      \<lparr>remote = (),
       trace =
         [ListCall ''me'' None False None 500,
          ListReply (ListResponse (Some [Message (Some ''a''), Message (Some ''b'')]) (Some ''t'')),
          Yield ''a'']\<rparr>)"
  by (simp add: list_message_ids_def paged_service_def two_pages_def call_list_def emit_def
      collect_def fresh_def eval_nat_numeral)

text \<open>
  Claim C7, at a failing input. The mailbox has two pages, the first with the identifiers
  \<open>a\<close> and \<open>b\<close> and a continuation token. With maximum 2 the lister yields \<open>a\<close> and
  \<open>b\<close>, so the maximum is reached at the end of the first page; it then sends a second
  list request all the same, and returns only at the first record of the second page.
  With maximum 1 on the same mailbox the maximum is reached inside the first page, and
  there the lister returns at once, without a second request.
\<close>

theorem lister_requests_page_after_cap:
  "trace (snd (list_message_ids 3 (paged_service two_pages) None False 2 collect [] (fresh ())))
     = [ListCall ''me'' None False None 500,
        ListReply (ListResponse (Some [Message (Some ''a''), Message (Some ''b'')]) (Some ''t'')),
        Yield ''a'', Yield ''b'',
        ListCall ''me'' None False (Some ''t'') 500,
        ListReply (ListResponse (Some [Message (Some ''c'')]) None)]
   \<and> trace (snd (list_message_ids 3 (paged_service two_pages) None False 1 collect [] (fresh ())))
     = [ListCall ''me'' None False None 500,
        ListReply (ListResponse (Some [Message (Some ''a''), Message (Some ''b'')]) (Some ''t'')),
        Yield ''a'']"
  unfolding example_capped_listing example_capped_mid_page_listing by simp

end
